theory Spec2Isabelle
  imports Complex_Main
begin

section \<open>Values\<close>

text \<open>
  The optimizer of \<^verbatim>\<open>backend/ml/optimization/afsa.py\<close> computes with numpy floats.
  Finite floats are idealised as reals (no rounding, no overflow). The non-finite values the
  code can produce are kept apart: \<^verbatim>\<open>float('-inf')\<close> is returned by the fitness function
  for an infeasible solution, and a division of a numpy float by zero gives an infinity or a
  NaN (with a warning, not an exception). A fitness value is therefore a value of \<open>fl\<close>;
  positions, bounds and traffic measurements are finite and are reals. The real numbers have
  one zero only: the divisor \<^verbatim>\<open>-0.0\<close> is not distinguished from \<^verbatim>\<open>0.0\<close>.
\<close>

datatype fl = NInf | Fin real | PInf | NaN

text \<open>The exceptions of Python and numpy that the modelled code can raise.\<close>

datatype error = IndexError | ValueError | ZeroDivisionError | TypeError

type_synonym vec = "real list"

definition bindE :: "error + 'a \<Rightarrow> ('a \<Rightarrow> error + 'b) \<Rightarrow> error + 'b" where
  "bindE m k = (case m of Inl e \<Rightarrow> Inl e | Inr x \<Rightarrow> k x)"

text \<open>IEEE comparison \<^verbatim>\<open>a > b\<close>: false as soon as one side is a NaN.\<close>

fun fl_gt :: "fl \<Rightarrow> fl \<Rightarrow> bool" where
  "fl_gt NaN _ = False"
| "fl_gt _ NaN = False"
| "fl_gt NInf _ = False"
| "fl_gt _ NInf = True"
| "fl_gt _ PInf = False"
| "fl_gt PInf _ = True"
| "fl_gt (Fin x) (Fin y) = (x > y)"

text \<open>IEEE comparison \<^verbatim>\<open>a <= b\<close>.\<close>

fun fl_le :: "fl \<Rightarrow> fl \<Rightarrow> bool" where
  "fl_le NaN _ = False"
| "fl_le _ NaN = False"
| "fl_le NInf _ = True"
| "fl_le _ NInf = False"
| "fl_le _ PInf = True"
| "fl_le PInf _ = False"
| "fl_le (Fin x) (Fin y) = (x \<le> y)"

fun fl_add :: "fl \<Rightarrow> fl \<Rightarrow> fl" where
  "fl_add NaN _ = NaN"
| "fl_add _ NaN = NaN"
| "fl_add PInf NInf = NaN"
| "fl_add NInf PInf = NaN"
| "fl_add PInf _ = PInf"
| "fl_add _ PInf = PInf"
| "fl_add NInf _ = NInf"
| "fl_add _ NInf = NInf"
| "fl_add (Fin x) (Fin y) = Fin (x + y)"

text \<open>The product of a finite float and a float.\<close>

fun fl_scale :: "real \<Rightarrow> fl \<Rightarrow> fl" where
  "fl_scale c NaN = NaN"
| "fl_scale c (Fin x) = Fin (c * x)"
| "fl_scale c PInf = (if c > 0 then PInf else if c < 0 then NInf else NaN)"
| "fl_scale c NInf = (if c > 0 then NInf else if c < 0 then PInf else NaN)"

text \<open>The quotient of two finite numpy floats; a zero divisor raises nothing.\<close>

definition fl_div :: "real \<Rightarrow> real \<Rightarrow> fl" where
  "fl_div x y =
     (if y \<noteq> 0 then Fin (x / y)
      else if x > 0 then PInf else if x < 0 then NInf else NaN)"

text \<open>\<^verbatim>\<open>np.sum\<close> of a list of floats.\<close>

definition np_sum :: "fl list \<Rightarrow> fl" where
  "np_sum xs = foldl fl_add (Fin 0) xs"

section \<open>The objects\<close>

text \<open>
  The attributes of \<^verbatim>\<open>ArtificialFishSwarmAlgorithm\<close>. \<open>best_solution\<close> is \<open>None\<close> until
  the first call of \<^verbatim>\<open>optimize\<close>.
\<close>

record swarm =
  num_fish :: int
  max_iterations :: int
  visual_range :: real
  crowd_factor :: real
  step_size :: real
  try_number :: int
  best_solution :: "vec option"
  best_fitness :: fl

text \<open>The constructor \<^verbatim>\<open>ArtificialFishSwarmAlgorithm()\<close> with its default arguments.\<close>

definition new_swarm :: swarm where
  "new_swarm = \<lparr>num_fish = 50, max_iterations = 100, visual_range = 5, crowd_factor = 0.618,
     step_size = 0.5, try_number = 10, best_solution = None, best_fitness = NInf\<rparr>"

text \<open>The attributes of \<^verbatim>\<open>TrafficSignalOptimizer\<close>.\<close>

record optimizer =
  num_phases :: int
  min_green_time :: real
  max_green_time :: real
  cycle_time_constraint :: real
  afsa :: swarm

definition new_optimizer :: "int \<Rightarrow> real \<Rightarrow> real \<Rightarrow> real \<Rightarrow> optimizer" where
  "new_optimizer n lo hi c =
     \<lparr>num_phases = n, min_green_time = lo, max_green_time = hi, cycle_time_constraint = c,
      afsa = new_swarm\<rparr>"

section \<open>Random sources\<close>

text \<open>
  The code draws from the global generators of the modules \<^verbatim>\<open>random\<close> and
  \<^verbatim>\<open>numpy.random\<close>; it never seeds them and takes no seed. Their algorithms are not part
  of the repository: a source of randomness is a parameter, given by a type \<open>'s\<close> of states
  (the state of both generators of the process) and the three primitive draws that the code
  uses, each returning the value drawn and the next state:
  \<^verbatim>\<open>random.random()\<close>, \<^verbatim>\<open>random._randbelow(n)\<close> and one sample of numpy's generator
  in the unit interval.
\<close>

record 's gens =
  py_random :: "'s \<Rightarrow> real \<times> 's"
  py_randbelow :: "nat \<Rightarrow> 's \<Rightarrow> nat \<times> 's"
  np_random_sample :: "'s \<Rightarrow> real \<times> 's"

text \<open>\<^verbatim>\<open>random.uniform(a, b)\<close> is \<^verbatim>\<open>a + (b - a) * self.random()\<close>.\<close>

definition uniform :: "'s gens \<Rightarrow> real \<Rightarrow> real \<Rightarrow> 's \<Rightarrow> real \<times> 's" where
  "uniform G a b s = (let (r, s') = py_random G s in (a + (b - a) * r, s'))"

text \<open>\<^verbatim>\<open>random.choice(seq)\<close> is \<^verbatim>\<open>seq[self._randbelow(len(seq))]\<close>.\<close>

definition choice :: "'s gens \<Rightarrow> 'a list \<Rightarrow> 's \<Rightarrow> error + ('a \<times> 's)" where
  "choice G seq s =
     (if seq = [] then Inl IndexError
      else let (i, s') = py_randbelow G (length seq) s
           in if i < length seq then Inr (seq ! i, s') else Inl IndexError)"

text \<open>\<^verbatim>\<open>np.random.uniform(low, high, size)\<close>: \<open>size\<close> samples, each scaled into the interval.\<close>

fun np_uniform :: "'s gens \<Rightarrow> real \<Rightarrow> real \<Rightarrow> nat \<Rightarrow> 's \<Rightarrow> vec \<times> 's" where
  "np_uniform G low high 0 s = ([], s)"
| "np_uniform G low high (Suc n) s =
     (let (r, s1) = np_random_sample G s;
          (xs, s2) = np_uniform G low high n s1
      in ((low + (high - low) * r) # xs, s2))"

section \<open>Vectors\<close>

text \<open>
  A position is a one-dimensional array and a population a two-dimensional one: its rows have
  one length, which is the length of the fish that the behaviors are applied to.
\<close>

definition vadd :: "vec \<Rightarrow> vec \<Rightarrow> vec" where
  "vadd a b = map2 (+) a b"

definition vsub :: "vec \<Rightarrow> vec \<Rightarrow> vec" where
  "vsub a b = map2 (-) a b"

definition smul :: "real \<Rightarrow> vec \<Rightarrow> vec" where
  "smul c v = map (\<lambda>x. c * x) v"

definition sdiv :: "vec \<Rightarrow> real \<Rightarrow> vec" where
  "sdiv v c = map (\<lambda>x. x / c) v"

text \<open>\<^verbatim>\<open>np.linalg.norm\<close> of a vector.\<close>

definition linalg_norm :: "vec \<Rightarrow> real" where
  "linalg_norm v = sqrt (sum_list (map (\<lambda>x. x * x) v))"

text \<open>
  The loop \<^verbatim>\<open>new_position[j] = max(lower_bounds[j], min(upper_bounds[j], new_position[j]))\<close>
  over \<^verbatim>\<open>range(dimensions)\<close>, where \<open>dimensions\<close> is the length of the position.
\<close>

definition clamp :: "real list \<Rightarrow> real list \<Rightarrow> vec \<Rightarrow> error + vec" where
  "clamp lower_bounds upper_bounds new_position =
     (if length new_position \<le> length lower_bounds \<and> length new_position \<le> length upper_bounds
      then Inr (map (\<lambda>j. max (lower_bounds ! j) (min (upper_bounds ! j) (new_position ! j)))
                  [0..<length new_position])
      else Inl IndexError)"

text \<open>
  The same loop on a position all of whose coordinates are NaN: \<^verbatim>\<open>min(u, nan)\<close> is \<open>u\<close>
  (the comparison \<^verbatim>\<open>nan < u\<close> is false) and \<^verbatim>\<open>max(l, u)\<close> follows.
\<close>

definition clamp_nan :: "real list \<Rightarrow> real list \<Rightarrow> nat \<Rightarrow> error + vec" where
  "clamp_nan lower_bounds upper_bounds dimensions =
     (if dimensions \<le> length lower_bounds \<and> dimensions \<le> length upper_bounds
      then Inr (map (\<lambda>j. max (lower_bounds ! j) (upper_bounds ! j)) [0..<dimensions])
      else Inl IndexError)"

section \<open>The fish swarm algorithm\<close>

text \<open>
  \<^verbatim>\<open>initialize_population\<close>: \<^verbatim>\<open>np.zeros\<close> refuses a negative shape; every coordinate is
  then drawn with \<^verbatim>\<open>random.uniform\<close>, row by row, and a bound list shorter than
  \<open>dimensions\<close> raises IndexError in the first row.
\<close>

fun uniform_row :: "'s gens \<Rightarrow> (real \<times> real) list \<Rightarrow> 's \<Rightarrow> vec \<times> 's" where
  "uniform_row G [] s = ([], s)"
| "uniform_row G ((a, b) # bs) s =
     (let (x, s1) = uniform G a b s;
          (xs, s2) = uniform_row G bs s1
      in (x # xs, s2))"

fun uniform_rows :: "'s gens \<Rightarrow> (real \<times> real) list \<Rightarrow> nat \<Rightarrow> 's \<Rightarrow> vec list \<times> 's" where
  "uniform_rows G bs 0 s = ([], s)"
| "uniform_rows G bs (Suc n) s =
     (let (row, s1) = uniform_row G bs s;
          (rows, s2) = uniform_rows G bs n s1
      in (row # rows, s2))"

definition initialize_population ::
  "'s gens \<Rightarrow> swarm \<Rightarrow> int \<Rightarrow> real list \<Rightarrow> real list \<Rightarrow> 's \<Rightarrow> error + (vec list \<times> 's)"
where
  "initialize_population G self dimensions lower_bounds upper_bounds s =
     (if num_fish self < 0 \<or> dimensions < 0 then Inl ValueError
      else if 0 < num_fish self
              \<and> (length lower_bounds < nat dimensions \<or> length upper_bounds < nat dimensions)
      then Inl IndexError
      else Inr (uniform_rows G (take (nat dimensions) (zip lower_bounds upper_bounds))
                  (nat (num_fish self)) s))"

text \<open>
  One try of the prey behavior, from the vector \<open>random_direction\<close> drawn by
  \<^verbatim>\<open>np.random.uniform(-1, 1, dimensions)\<close>: the vector is divided by its norm, the fish
  steps \<open>visual_range\<close> along it and is clamped. A vector of norm zero is all zeros and its
  quotient all NaN, and so is the position before it is clamped.
\<close>

definition prey_sample :: "swarm \<Rightarrow> vec \<Rightarrow> real list \<Rightarrow> real list \<Rightarrow> vec \<Rightarrow> error + vec" where
  "prey_sample self current_fish lower_bounds upper_bounds random_direction =
     (let n = linalg_norm random_direction
      in if n = 0 then clamp_nan lower_bounds upper_bounds (length current_fish)
         else clamp lower_bounds upper_bounds
                (vadd current_fish (smul (visual_range self) (sdiv random_direction n))))"

text \<open>The loop of \<^verbatim>\<open>prey_behavior\<close>, with the number of tries that are left.\<close>

fun prey_tries ::
  "'s gens \<Rightarrow> swarm \<Rightarrow> (vec \<Rightarrow> error + fl) \<Rightarrow> real list \<Rightarrow> real list \<Rightarrow> vec \<Rightarrow> fl \<Rightarrow> nat \<Rightarrow> 's
     \<Rightarrow> error + (vec \<times> 's)"
where
  "prey_tries G self f lo up current_fish current_fitness 0 s = Inr (current_fish, s)"
| "prey_tries G self f lo up current_fish current_fitness (Suc k) s =
     (let (random_direction, s1) = np_uniform G (- 1) 1 (length current_fish) s
      in bindE (prey_sample self current_fish lo up random_direction) (\<lambda>new_position.
         bindE (f new_position) (\<lambda>new_fitness.
         if fl_gt new_fitness current_fitness then Inr (new_position, s1)
         else prey_tries G self f lo up current_fish current_fitness k s1)))"

definition prey_behavior ::
  "'s gens \<Rightarrow> swarm \<Rightarrow> vec \<Rightarrow> vec list \<Rightarrow> (vec \<Rightarrow> error + fl) \<Rightarrow> real list \<Rightarrow> real list \<Rightarrow> 's
     \<Rightarrow> error + (vec \<times> 's)"
where
  "prey_behavior G self current_fish population fitness_function lower_bounds upper_bounds s =
     bindE (fitness_function current_fish) (\<lambda>current_fitness.
       prey_tries G self fitness_function lower_bounds upper_bounds current_fish current_fitness
         (nat (try_number self)) s)"

text \<open>
  The move of the swarm and follow behaviors: \<open>step_size\<close> along the direction to the
  target, normalised when its norm is positive, then clamped.
\<close>

definition move_towards :: "swarm \<Rightarrow> vec \<Rightarrow> vec \<Rightarrow> real list \<Rightarrow> real list \<Rightarrow> error + vec" where
  "move_towards self current_fish target lower_bounds upper_bounds =
     (let direction = vsub target current_fish;
          direction = (if linalg_norm direction > 0 then sdiv direction (linalg_norm direction)
                       else direction)
      in clamp lower_bounds upper_bounds (vadd current_fish (smul (step_size self) direction)))"

text \<open>The fish of the population at a distance from \<open>current_fish\<close> in the open interval
  from 0 to \<open>visual_range\<close>.\<close>

definition neighbors_of :: "swarm \<Rightarrow> vec \<Rightarrow> vec list \<Rightarrow> vec list" where
  "neighbors_of self current_fish population =
     filter (\<lambda>fish. 0 < linalg_norm (vsub fish current_fish)
                   \<and> linalg_norm (vsub fish current_fish) < visual_range self) population"

text \<open>The centre: the sum of the neighbors from \<^verbatim>\<open>np.zeros(dimensions)\<close>, over their number.\<close>

definition center_of :: "nat \<Rightarrow> vec list \<Rightarrow> vec" where
  "center_of dimensions neighbors =
     sdiv (foldl vadd (replicate dimensions 0) neighbors) (real (length neighbors))"

definition swarm_behavior ::
  "'s gens \<Rightarrow> swarm \<Rightarrow> vec \<Rightarrow> vec list \<Rightarrow> (vec \<Rightarrow> error + fl) \<Rightarrow> real list \<Rightarrow> real list \<Rightarrow> 's
     \<Rightarrow> error + (vec \<times> 's)"
where
  "swarm_behavior G self current_fish population fitness_function lower_bounds upper_bounds s =
     bindE (fitness_function current_fish) (\<lambda>current_fitness.
     let neighbors = neighbors_of self current_fish population
     in if neighbors = [] then Inr (current_fish, s)
        else
          let center = center_of (length current_fish) neighbors
          in if num_fish self = 0 then Inl ZeroDivisionError
             else if real (length neighbors) / real_of_int (num_fish self) > crowd_factor self
             then prey_behavior G self current_fish population fitness_function
                    lower_bounds upper_bounds s
             else
               bindE (fitness_function center) (\<lambda>center_fitness.
               if fl_gt center_fitness current_fitness
               then bindE (move_towards self current_fish center lower_bounds upper_bounds)
                      (\<lambda>new_position. Inr (new_position, s))
               else prey_behavior G self current_fish population fitness_function
                      lower_bounds upper_bounds s))"

text \<open>The first loop of \<^verbatim>\<open>follow_behavior\<close>: the best neighbor so far and its fitness.\<close>

fun best_neighbor_scan ::
  "swarm \<Rightarrow> (vec \<Rightarrow> error + fl) \<Rightarrow> vec \<Rightarrow> vec list \<Rightarrow> vec option \<times> fl \<Rightarrow> error + (vec option \<times> fl)"
where
  "best_neighbor_scan self f current_fish [] acc = Inr acc"
| "best_neighbor_scan self f current_fish (fish # rest) (best_neighbor, best_neighbor_fitness) =
     (let distance = linalg_norm (vsub fish current_fish)
      in if 0 < distance \<and> distance < visual_range self
         then bindE (f fish) (\<lambda>fish_fitness.
                if fl_gt fish_fitness best_neighbor_fitness
                then best_neighbor_scan self f current_fish rest (Some fish, fish_fitness)
                else best_neighbor_scan self f current_fish rest
                       (best_neighbor, best_neighbor_fitness))
         else best_neighbor_scan self f current_fish rest (best_neighbor, best_neighbor_fitness))"

definition follow_behavior ::
  "'s gens \<Rightarrow> swarm \<Rightarrow> vec \<Rightarrow> vec list \<Rightarrow> (vec \<Rightarrow> error + fl) \<Rightarrow> real list \<Rightarrow> real list \<Rightarrow> 's
     \<Rightarrow> error + (vec \<times> 's)"
where
  "follow_behavior G self current_fish population fitness_function lower_bounds upper_bounds s =
     bindE (fitness_function current_fish) (\<lambda>current_fitness.
     bindE (best_neighbor_scan self fitness_function current_fish population (None, NInf))
       (\<lambda>(best_neighbor, best_neighbor_fitness).
     case best_neighbor of
       None \<Rightarrow> prey_behavior G self current_fish population fitness_function
                 lower_bounds upper_bounds s
     | Some best \<Rightarrow>
         if fl_le best_neighbor_fitness current_fitness
         then prey_behavior G self current_fish population fitness_function
                lower_bounds upper_bounds s
         else
           let neighbors_count =
                 length (filter (\<lambda>fish. linalg_norm (vsub fish best) < visual_range self)
                           population)
           in if num_fish self = 0 then Inl ZeroDivisionError
              else if real neighbors_count / real_of_int (num_fish self) > crowd_factor self
              then prey_behavior G self current_fish population fitness_function
                     lower_bounds upper_bounds s
              else bindE (move_towards self current_fish best lower_bounds upper_bounds)
                     (\<lambda>new_position. Inr (new_position, s))))"

text \<open>\<^verbatim>\<open>np.argmax\<close> of an array of floats: the first NaN if there is one, the first
  greatest value otherwise; the empty array raises ValueError.\<close>

fun argmax_scan :: "fl list \<Rightarrow> nat \<Rightarrow> nat \<Rightarrow> fl \<Rightarrow> nat" where
  "argmax_scan [] i max_ind mp = max_ind"
| "argmax_scan (x # xs) i max_ind mp =
     (if mp = NaN then max_ind
      else if \<not> fl_le x mp then argmax_scan xs (Suc i) i x
      else argmax_scan xs (Suc i) max_ind mp)"

definition np_argmax :: "fl list \<Rightarrow> error + nat" where
  "np_argmax xs = (case xs of [] \<Rightarrow> Inl ValueError | x # rest \<Rightarrow> Inr (argmax_scan rest 1 0 x))"

text \<open>The list comprehension \<^verbatim>\<open>[fitness_function(fish) for fish in population]\<close>.\<close>

fun fitness_values_of :: "(vec \<Rightarrow> error + fl) \<Rightarrow> vec list \<Rightarrow> error + fl list" where
  "fitness_values_of f [] = Inr []"
| "fitness_values_of f (fish # rest) =
     bindE (f fish) (\<lambda>v. bindE (fitness_values_of f rest) (\<lambda>vs. Inr (v # vs)))"

datatype behavior = Prey | Swarm | Follow

text \<open>The update of the best solution in the loop:
  \<^verbatim>\<open>if new_fitness > self.best_fitness\<close>, both attributes are replaced.\<close>

definition update_best :: "swarm \<Rightarrow> vec \<Rightarrow> fl \<Rightarrow> swarm" where
  "update_best self new_position new_fitness =
     (if fl_gt new_fitness (best_fitness self)
      then self\<lparr>best_solution := Some new_position, best_fitness := new_fitness\<rparr>
      else self)"

text \<open>
  The inner loop of \<^verbatim>\<open>optimize\<close> over the fish that are left in the generation. Every
  behavior reads the population of the start of the generation; the new positions are
  returned in order, with the object (its best solution and best fitness updated) and the
  state of the random source.
\<close>

fun fish_loop ::
  "'s gens \<Rightarrow> (vec \<Rightarrow> error + fl) \<Rightarrow> real list \<Rightarrow> real list \<Rightarrow> vec list \<Rightarrow> vec list \<Rightarrow> swarm \<Rightarrow> 's
     \<Rightarrow> error + (vec list \<times> swarm \<times> 's)"
where
  "fish_loop G f lo up population [] self s = Inr ([], self, s)"
| "fish_loop G f lo up population (current_fish # rest) self s =
     bindE (choice G [Prey, Swarm, Follow] s) (\<lambda>(behavior, s1).
     bindE (case behavior of
              Prey \<Rightarrow> prey_behavior G self current_fish population f lo up s1
            | Swarm \<Rightarrow> swarm_behavior G self current_fish population f lo up s1
            | Follow \<Rightarrow> follow_behavior G self current_fish population f lo up s1)
       (\<lambda>(new_position, s2).
     bindE (f new_position) (\<lambda>new_fitness.
     bindE (fish_loop G f lo up population rest
              (update_best self new_position new_fitness) s2) (\<lambda>(new_rest, self'', s3).
     Inr (new_position # new_rest, self'', s3)))))"

text \<open>One iteration of the main loop: the fish are \<^verbatim>\<open>population[i]\<close> for \<open>i\<close> in
  \<^verbatim>\<open>range(self.num_fish)\<close>, and the new population replaces the old one.\<close>

definition generation ::
  "'s gens \<Rightarrow> (vec \<Rightarrow> error + fl) \<Rightarrow> real list \<Rightarrow> real list \<Rightarrow> vec list \<times> swarm \<times> 's
     \<Rightarrow> error + (vec list \<times> swarm \<times> 's)"
where
  "generation G f lo up st =
     (case st of (population, self, s) \<Rightarrow>
        if nat (num_fish self) \<le> length population
        then fish_loop G f lo up population
               (map (\<lambda>i. population ! i) [0..<nat (num_fish self)]) self s
        else Inl IndexError)"

fun generations ::
  "'s gens \<Rightarrow> (vec \<Rightarrow> error + fl) \<Rightarrow> real list \<Rightarrow> real list \<Rightarrow> nat \<Rightarrow> vec list \<times> swarm \<times> 's
     \<Rightarrow> error + (vec list \<times> swarm \<times> 's)"
where
  "generations G f lo up 0 st = Inr st"
| "generations G f lo up (Suc n) st = bindE (generation G f lo up st) (generations G f lo up n)"

text \<open>
  The state with which \<^verbatim>\<open>optimize\<close> enters its main loop: the initial population, and the
  object with the best of the initial population.
\<close>

definition optimize_init ::
  "'s gens \<Rightarrow> swarm \<Rightarrow> (vec \<Rightarrow> error + fl) \<Rightarrow> int \<Rightarrow> real list \<Rightarrow> real list \<Rightarrow> 's
     \<Rightarrow> error + (vec list \<times> swarm \<times> 's)"
where
  "optimize_init G self fitness_function dimensions lower_bounds upper_bounds s =
     bindE (initialize_population G self dimensions lower_bounds upper_bounds s)
       (\<lambda>(population, s1).
     bindE (fitness_values_of fitness_function population) (\<lambda>fitness_values.
     bindE (np_argmax fitness_values) (\<lambda>best_index.
     Inr (population,
          self\<lparr>best_solution := Some (population ! best_index),
               best_fitness := fitness_values ! best_index\<rparr>,
          s1))))"

text \<open>
  \<^verbatim>\<open>optimize\<close> returns the pair of the best solution and the best fitness; the model
  returns with it the object and the state of the random source as the call leaves them. The
  progress line printed every tenth iteration is not modelled.
\<close>

definition optimize ::
  "'s gens \<Rightarrow> swarm \<Rightarrow> (vec \<Rightarrow> error + fl) \<Rightarrow> int \<Rightarrow> real list \<Rightarrow> real list \<Rightarrow> 's
     \<Rightarrow> error + ((vec option \<times> fl) \<times> swarm \<times> 's)"
where
  "optimize G self fitness_function dimensions lower_bounds upper_bounds s =
     bindE (optimize_init G self fitness_function dimensions lower_bounds upper_bounds s)
       (\<lambda>st0.
     bindE (generations G fitness_function lower_bounds upper_bounds
              (nat (max_iterations self)) st0) (\<lambda>(population, self', s').
     Inr ((best_solution self', best_fitness self'), self', s')))"

section \<open>The signal optimizer\<close>

text \<open>
  \<^verbatim>\<open>[solution[i] * xs[i] for i in range(n)]\<close>: reading either sequence past its end
  raises IndexError.
\<close>

definition products :: "nat \<Rightarrow> vec \<Rightarrow> real list \<Rightarrow> error + real list" where
  "products n solution xs =
     (if n \<le> length solution \<and> n \<le> length xs
      then Inr (map (\<lambda>i. solution ! i * xs ! i) [0..<n]) else Inl IndexError)"

text \<open>\<^verbatim>\<open>[solution[i] / xs[i] for i in range(n)]\<close>.\<close>

definition quotients :: "nat \<Rightarrow> vec \<Rightarrow> real list \<Rightarrow> error + fl list" where
  "quotients n solution xs =
     (if n \<le> length solution \<and> n \<le> length xs
      then Inr (map (\<lambda>i. fl_div (solution ! i) (xs ! i)) [0..<n]) else Inl IndexError)"

definition fitness_function ::
  "optimizer \<Rightarrow> vec \<Rightarrow> real list \<Rightarrow> real list \<Rightarrow> real list \<Rightarrow> real list option \<Rightarrow> error + fl"
where
  "fitness_function self solution traffic_volumes queue_lengths waiting_times emergency_priority =
     (let total_cycle_time = sum_list solution;
          n = nat (num_phases self)
      in if total_cycle_time > cycle_time_constraint self then Inr NInf
         else
           bindE (products n solution traffic_volumes) (\<lambda>ts.
           bindE (products n solution queue_lengths) (\<lambda>qs.
           bindE (quotients n solution waiting_times) (\<lambda>ws.
           bindE (case emergency_priority of
                    None \<Rightarrow> Inr 0
                  | Some ep \<Rightarrow> bindE (products n solution ep) (\<lambda>es. Inr (sum_list es)))
             (\<lambda>emergency_score.
           let throughput = sum_list ts;
               queue_reduction = sum_list qs;
               waiting_time_reduction = np_sum ws
           in Inr (fl_add
                    (fl_add (Fin (0.4 * throughput + 0.3 * queue_reduction))
                            (fl_scale 0.2 waiting_time_reduction))
                    (Fin (0.1 * emergency_score))))))))"

record timings =
  green_times :: vec
  cycle_time :: real
  phase_proportions :: "fl list"
  fitness :: fl

definition optimize_signal_timings ::
  "'s gens \<Rightarrow> optimizer \<Rightarrow> real list \<Rightarrow> real list \<Rightarrow> real list \<Rightarrow> real list option \<Rightarrow> 's
     \<Rightarrow> error + (timings \<times> optimizer \<times> 's)"
where
  "optimize_signal_timings G self traffic_volumes queue_lengths waiting_times emergency_priority s =
     (let lower_bounds = replicate (nat (num_phases self)) (min_green_time self);
          upper_bounds = replicate (nat (num_phases self)) (max_green_time self);
          fitness = (\<lambda>solution. fitness_function self solution traffic_volumes queue_lengths
                                  waiting_times emergency_priority)
      in bindE (optimize G (afsa self) fitness (num_phases self) lower_bounds upper_bounds s)
           (\<lambda>((best_solution, best_fitness), afsa', s').
         case best_solution of
           None \<Rightarrow> Inl TypeError
         | Some best \<Rightarrow>
             let total_cycle_time = sum_list best
             in Inr (\<lparr>green_times = best, cycle_time = total_cycle_time,
                      phase_proportions = map (\<lambda>x. fl_div x total_cycle_time) best,
                      fitness = best_fitness\<rparr>,
                     self\<lparr>afsa := afsa'\<rparr>, s')))"

section \<open>Predicates of the claims\<close>

text \<open>Every coordinate of a position lies between its lower and its upper bound.\<close>

definition in_bounds :: "real list \<Rightarrow> real list \<Rightarrow> vec \<Rightarrow> bool" where
  "in_bounds lo up v = list_all (\<lambda>j. lo ! j \<le> v ! j \<and> v ! j \<le> up ! j) [0..<length v]"

text \<open>The first \<open>d\<close> lower bounds do not exceed the upper bounds.\<close>

definition bounds_ordered :: "real list \<Rightarrow> real list \<Rightarrow> nat \<Rightarrow> bool" where
  "bounds_ordered lo up d = list_all (\<lambda>j. lo ! j \<le> up ! j) [0..<d]"

text \<open>Two objects have the same hyperparameters.\<close>

definition same_params :: "swarm \<Rightarrow> swarm \<Rightarrow> bool" where
  "same_params a b \<longleftrightarrow>
     num_fish a = num_fish b \<and> max_iterations a = max_iterations b
     \<and> visual_range a = visual_range b \<and> crowd_factor a = crowd_factor b
     \<and> step_size a = step_size b \<and> try_number a = try_number b"

text \<open>The best solution of the object is a position and \<open>f\<close> gives it the best fitness
  of the object.\<close>

definition best_ok :: "(vec \<Rightarrow> error + fl) \<Rightarrow> swarm \<Rightarrow> bool" where
  "best_ok f self =
     (case best_solution self of None \<Rightarrow> False | Some b \<Rightarrow> f b = Inr (best_fitness self))"

text \<open>A random source for concrete runs: its state is a counter, and the three draws
  return the counter modulo 4 over 4, the counter modulo \<open>n\<close>, and again the counter modulo 4
  over 4.\<close>

definition counter_gens :: "int gens" where
  "counter_gens =
     \<lparr>py_random = (\<lambda>n. (real_of_int (n mod 4) / 4, n + 1)),
      py_randbelow = (\<lambda>k n. (nat (n mod int k), n + 1)),
      np_random_sample = (\<lambda>n. (real_of_int (n mod 4) / 4, n + 1))\<rparr>"

text \<open>An object with two fish, one iteration and two tries, the other attributes as the
  constructor leaves them.\<close>

definition small_swarm :: swarm where
  "small_swarm = new_swarm\<lparr>num_fish := 2, max_iterations := 1, try_number := 2\<rparr>"

text \<open>An optimizer of one phase, with green times from 10 to 120 and a cycle of at most 130,
  that searches with the small object.\<close>

definition small_optimizer :: optimizer where
  "small_optimizer = (new_optimizer 1 10 120 130)\<lparr>afsa := small_swarm\<rparr>"

text \<open>The value \<open>m\<close> is a maximum of the list \<open>xs\<close> of floats: it occurs in the list and
  no element exceeds it.\<close>

definition is_maximum :: "fl \<Rightarrow> fl list \<Rightarrow> bool" where
  "is_maximum m xs \<longleftrightarrow> m \<in> set xs \<and> list_all (\<lambda>v. fl_le v m) xs"


text \<open>The position that a try samples from a direction, where the bounds cover the fish
  (the clamp raises nothing).\<close>

definition prey_position :: "swarm \<Rightarrow> vec \<Rightarrow> real list \<Rightarrow> real list \<Rightarrow> vec \<Rightarrow> vec" where
  "prey_position self current_fish lo up random_direction =
     (case prey_sample self current_fish lo up random_direction of
        Inr new_position \<Rightarrow> new_position | Inl e \<Rightarrow> current_fish)"



text \<open>The position with every coordinate clamped into its bounds.\<close>

definition clamped :: "real list \<Rightarrow> real list \<Rightarrow> vec \<Rightarrow> vec" where
  "clamped lo up v = map (\<lambda>j. max (lo ! j) (min (up ! j) (v ! j))) [0..<length v]"


text \<open>The green times of the result of a run, \<open>None\<close> when the run raised.\<close>

definition returned_green_times :: "error + (timings \<times> optimizer \<times> 's) \<Rightarrow> vec option" where
  "returned_green_times run =
     (case run of Inr (result, rest) \<Rightarrow> Some (green_times result) | Inl e \<Rightarrow> None)"

section \<open>Basic facts\<close>

lemma bindE_Inr [simp]: "bindE (Inr x) k = k x"
  by (simp add: bindE_def)

lemma bindE_Inl [simp]: "bindE (Inl e) k = Inl e"
  by (simp add: bindE_def)

lemma bindE_eq_Inr: "bindE m k = Inr y \<longleftrightarrow> (\<exists>x. m = Inr x \<and> k x = Inr y)"
  by (cases m) simp_all

lemma in_bounds_iff: "in_bounds lo up v \<longleftrightarrow> (\<forall>j<length v. lo ! j \<le> v ! j \<and> v ! j \<le> up ! j)"
  by (auto simp: in_bounds_def list_all_iff)

lemma bounds_ordered_iff: "bounds_ordered lo up d \<longleftrightarrow> (\<forall>j<d. lo ! j \<le> up ! j)"
  by (auto simp: bounds_ordered_def list_all_iff)

lemma length_np_uniform: "length (fst (np_uniform G l h n s)) = n"
  by (induction n arbitrary: s) (simp_all add: split_beta Let_def)

lemma length_vadd: "length (vadd a b) = min (length a) (length b)"
  by (simp add: vadd_def)

lemma length_vsub: "length (vsub a b) = min (length a) (length b)"
  by (simp add: vsub_def)

lemma length_smul: "length (smul c v) = length v"
  by (simp add: smul_def)

lemma length_sdiv: "length (sdiv v c) = length v"
  by (simp add: sdiv_def)

lemma clamp_Inr:
  assumes "clamp lo up v = Inr w"
  shows "length w = length v"
    and "bounds_ordered lo up (length v) \<Longrightarrow> in_bounds lo up w"
  using assms by (auto simp: clamp_def in_bounds_iff bounds_ordered_iff split: if_splits)

lemma clamp_nan_Inr:
  assumes "clamp_nan lo up d = Inr w"
  shows "length w = d"
    and "bounds_ordered lo up d \<Longrightarrow> in_bounds lo up w"
  using assms by (auto simp: clamp_nan_def in_bounds_iff bounds_ordered_iff split: if_splits)

lemma prey_sample_Inr:
  assumes "prey_sample self cur lo up rd = Inr p" and "length rd = length cur"
  shows "length p = length cur"
    and "bounds_ordered lo up (length cur) \<Longrightarrow> in_bounds lo up p"
  using assms clamp_Inr [of lo up "vadd cur (smul (visual_range self) (sdiv rd (linalg_norm rd)))" p]
    clamp_nan_Inr [of lo up "length cur" p]
  by (auto simp: prey_sample_def Let_def length_vadd length_smul length_sdiv split: if_splits)

lemma prey_tries_bounds:
  assumes "prey_tries G self f lo up cur cf k s = Inr (p, s')"
    and "bounds_ordered lo up (length cur)" and "in_bounds lo up cur"
  shows "length p = length cur \<and> in_bounds lo up p"
  using assms
proof (induction k arbitrary: s)
  case 0
  then show ?case by simp
next
  case (Suc k)
  obtain rd s1 where d: "np_uniform G (- 1) 1 (length cur) s = (rd, s1)"
    by (cases "np_uniform G (- 1) 1 (length cur) s")
  then have lrd: "length rd = length cur"
    using length_np_uniform [of G "- 1" 1 "length cur" s] by simp
  from Suc.prems(1) d obtain q v where q: "prey_sample self cur lo up rd = Inr q"
    and v: "f q = Inr v"
    and r: "(if fl_gt v cf then Inr (q, s1) else prey_tries G self f lo up cur cf k s1) = Inr (p, s')"
    by (auto simp: bindE_eq_Inr)
  show ?case
  proof (cases "fl_gt v cf")
    case True
    with r have "p = q" by simp
    with prey_sample_Inr [OF q lrd] Suc.prems(2) show ?thesis by simp
  next
    case False
    with r have "prey_tries G self f lo up cur cf k s1 = Inr (p, s')" by simp
    from Suc.IH [OF this Suc.prems(2,3)] show ?thesis .
  qed
qed

lemma prey_behavior_bounds:
  assumes "prey_behavior G self cur pop f lo up s = Inr (p, s')"
    and "bounds_ordered lo up (length cur)" and "in_bounds lo up cur"
  shows "length p = length cur \<and> in_bounds lo up p"
  using assms prey_tries_bounds
  by (fastforce simp: prey_behavior_def bindE_eq_Inr)

lemma move_towards_bounds:
  assumes "move_towards self cur target lo up = Inr p" and "length target = length cur"
    and "bounds_ordered lo up (length cur)"
  shows "length p = length cur \<and> in_bounds lo up p"
proof -
  let ?d = "vsub target cur"
  let ?d' = "if linalg_norm ?d > 0 then sdiv ?d (linalg_norm ?d) else ?d"
  have l: "length (vadd cur (smul (step_size self) ?d')) = length cur"
    using assms(2) by (simp add: length_vadd length_smul length_sdiv length_vsub)
  from assms(1) have "clamp lo up (vadd cur (smul (step_size self) ?d')) = Inr p"
    by (simp add: move_towards_def Let_def)
  from clamp_Inr [OF this] l assms(3) show ?thesis by simp
qed

lemma length_foldl_vadd:
  assumes "\<forall>p \<in> set ps. length p = length a"
  shows "length (foldl vadd a ps) = length a"
  using assms by (induction ps arbitrary: a) (simp_all add: length_vadd)

lemma length_center_of:
  assumes "\<forall>p \<in> set ps. length p = d"
  shows "length (center_of d ps) = d"
  using assms length_foldl_vadd [of ps "replicate d 0"]
  by (simp add: center_of_def length_sdiv)

lemma set_neighbors_of: "set (neighbors_of self cur pop) \<subseteq> set pop"
  by (auto simp: neighbors_of_def)

lemma swarm_behavior_bounds:
  assumes "swarm_behavior G self cur pop f lo up s = Inr (p, s')"
    and "\<forall>q \<in> set pop. length q = length cur"
    and "bounds_ordered lo up (length cur)" and "in_bounds lo up cur"
  shows "length p = length cur \<and> in_bounds lo up p"
proof -
  let ?N = "neighbors_of self cur pop"
  have lc: "length (center_of (length cur) ?N) = length cur"
    using assms(2) set_neighbors_of [of self cur pop] by (intro length_center_of) auto
  from assms(1) consider "p = cur"
    | "prey_behavior G self cur pop f lo up s = Inr (p, s')"
    | "move_towards self cur (center_of (length cur) ?N) lo up = Inr p"
    by (auto simp: swarm_behavior_def bindE_eq_Inr Let_def split: if_splits)
  then show ?thesis
  proof cases
    case 1
    with assms show ?thesis by simp
  next
    case 2
    from prey_behavior_bounds [OF this assms(3,4)] show ?thesis .
  next
    case 3
    from move_towards_bounds [OF this lc assms(3)] show ?thesis .
  qed
qed

lemma best_neighbor_scan_mem:
  assumes "best_neighbor_scan self f cur pop acc = Inr (Some b, v)"
  shows "b \<in> set pop \<or> fst acc = Some b"
  using assms
proof (induction pop arbitrary: acc)
  case Nil
  then show ?case by simp
next
  case (Cons fish rest)
  obtain bn bf where acc: "acc = (bn, bf)" by (cases acc)
  from Cons.prems acc consider
      w where "best_neighbor_scan self f cur rest (Some fish, w) = Inr (Some b, v)"
    | "best_neighbor_scan self f cur rest (bn, bf) = Inr (Some b, v)"
    by (auto simp: bindE_eq_Inr Let_def split: if_splits)
  then show ?case
  proof cases
    case 1
    from Cons.IH [OF this] show ?thesis by auto
  next
    case 2
    from Cons.IH [OF this] acc show ?thesis by auto
  qed
qed

lemma follow_behavior_bounds:
  assumes "follow_behavior G self cur pop f lo up s = Inr (p, s')"
    and "\<forall>q \<in> set pop. length q = length cur"
    and "bounds_ordered lo up (length cur)" and "in_bounds lo up cur"
  shows "length p = length cur \<and> in_bounds lo up p"
proof -
  from assms(1) consider
      "prey_behavior G self cur pop f lo up s = Inr (p, s')"
    | b v where "best_neighbor_scan self f cur pop (None, NInf) = Inr (Some b, v)"
        and "move_towards self cur b lo up = Inr p"
    by (auto simp: follow_behavior_def bindE_eq_Inr Let_def split: if_splits option.splits)
  then show ?thesis
  proof cases
    case 1
    from prey_behavior_bounds [OF this assms(3,4)] show ?thesis .
  next
    case 2
    from best_neighbor_scan_mem [OF 2(1)] have "b \<in> set pop" by simp
    with assms(2) have "length b = length cur" by simp
    from move_towards_bounds [OF 2(2) this assms(3)] show ?thesis .
  qed
qed


lemma choice_Inr: "choice G xs s = Inr (x, s') \<Longrightarrow> x \<in> set xs"
  by (auto simp: choice_def Let_def split_beta split: if_splits)

lemma behavior_bounds:
  assumes "(case b of
              Prey \<Rightarrow> prey_behavior G self cur pop f lo up s
            | Swarm \<Rightarrow> swarm_behavior G self cur pop f lo up s
            | Follow \<Rightarrow> follow_behavior G self cur pop f lo up s) = Inr (p, s')"
    and "\<forall>q \<in> set pop. length q = length cur"
    and "bounds_ordered lo up (length cur)" and "in_bounds lo up cur"
  shows "length p = length cur \<and> in_bounds lo up p"
proof (cases b)
  case Prey
  with assms(1) have "prey_behavior G self cur pop f lo up s = Inr (p, s')" by simp
  from prey_behavior_bounds [OF this assms(3,4)] show ?thesis .
next
  case Swarm
  with assms(1) have "swarm_behavior G self cur pop f lo up s = Inr (p, s')" by simp
  from swarm_behavior_bounds [OF this assms(2,3,4)] show ?thesis .
next
  case Follow
  with assms(1) have "follow_behavior G self cur pop f lo up s = Inr (p, s')" by simp
  from follow_behavior_bounds [OF this assms(2,3,4)] show ?thesis .
qed

lemma fish_loop_bounds:
  assumes "fish_loop G f lo up pop rest self s = Inr (news, self', s')"
    and "\<forall>q \<in> set pop. length q = d"
    and "\<forall>c \<in> set rest. length c = d \<and> in_bounds lo up c"
    and "bounds_ordered lo up d"
  shows "length news = length rest \<and> (\<forall>p \<in> set news. length p = d \<and> in_bounds lo up p)"
  using assms(1,3)
proof (induction rest arbitrary: self s news)
  case Nil
  then show ?case by simp
next
  case (Cons cur rest)
  from Cons.prems(1) obtain b s1 p s2 v tl self2 where
      b: "(case b of
              Prey \<Rightarrow> prey_behavior G self cur pop f lo up s1
            | Swarm \<Rightarrow> swarm_behavior G self cur pop f lo up s1
            | Follow \<Rightarrow> follow_behavior G self cur pop f lo up s1) = Inr (p, s2)"
    and r: "fish_loop G f lo up pop rest self2 s2 = Inr (tl, self', s')"
    and n: "news = p # tl"
    by (auto simp: bindE_eq_Inr)
  from Cons.prems(2) have c: "length cur = d" "in_bounds lo up cur" by simp_all
  from behavior_bounds [OF b] assms(2,4) c have p: "length p = d \<and> in_bounds lo up p"
    by simp
  from Cons.IH [OF r] Cons.prems(2)
  have "length tl = length rest \<and> (\<forall>p \<in> set tl. length p = d \<and> in_bounds lo up p)" by simp
  with p n show ?case by simp
qed

lemma same_params_update_best: "same_params (update_best self p v) self"
  by (simp add: same_params_def update_best_def)

lemma same_params_trans: "same_params a b \<Longrightarrow> same_params b c \<Longrightarrow> same_params a c"
  by (simp add: same_params_def)

lemma fish_loop_params:
  assumes "fish_loop G f lo up pop rest self s = Inr (news, self', s')"
  shows "same_params self' self"
  using assms
proof (induction rest arbitrary: self s news)
  case Nil
  then show ?case by (simp add: same_params_def)
next
  case (Cons cur rest)
  from Cons.prems obtain p v s2 tl where
      r: "fish_loop G f lo up pop rest (update_best self p v) s2 = Inr (tl, self', s')"
    by (auto simp: bindE_eq_Inr)
  from Cons.IH [OF r] same_params_update_best [of self p v] show ?case
    by (rule same_params_trans)
qed

lemma uniform_bounds:
  assumes "0 \<le> fst (py_random G s)" "fst (py_random G s) \<le> 1" "a \<le> b"
  shows "a \<le> fst (uniform G a b s) \<and> fst (uniform G a b s) \<le> b"
proof -
  let ?r = "fst (py_random G s)"
  have u: "fst (uniform G a b s) = a + (b - a) * ?r"
    by (simp add: uniform_def split_beta)
  have "0 \<le> (b - a) * ?r" using assms by simp
  moreover have "(b - a) * ?r \<le> b - a"
    using assms mult_left_le [of ?r "b - a"] by simp
  ultimately show ?thesis using u by simp
qed

lemma uniform_row_bounds:
  assumes unit: "\<forall>s. 0 \<le> fst (py_random G s) \<and> fst (py_random G s) \<le> 1"
  shows "length (fst (uniform_row G bs s)) = length bs
         \<and> (\<forall>j<length bs. fst (bs ! j) \<le> snd (bs ! j) \<longrightarrow>
               fst (bs ! j) \<le> fst (uniform_row G bs s) ! j
               \<and> fst (uniform_row G bs s) ! j \<le> snd (bs ! j))"
proof (induction bs arbitrary: s)
  case Nil
  show ?case by simp
next
  case (Cons ab bs)
  obtain a b where ab: "ab = (a, b)" by (cases ab)
  obtain x s1 where x: "uniform G a b s = (x, s1)" by (cases "uniform G a b s")
  have row: "fst (uniform_row G (ab # bs) s) = x # fst (uniform_row G bs s1)"
    using ab x by (simp add: split_beta)
  have xb: "a \<le> b \<Longrightarrow> a \<le> x \<and> x \<le> b"
    using uniform_bounds [of G s a b] unit x by simp
  show ?case
  proof (intro conjI allI impI)
    show "length (fst (uniform_row G (ab # bs) s)) = length (ab # bs)"
      using row Cons.IH [of s1] by simp
  next
    fix j assume j: "j < length (ab # bs)" and o: "fst ((ab # bs) ! j) \<le> snd ((ab # bs) ! j)"
    show "fst ((ab # bs) ! j) \<le> fst (uniform_row G (ab # bs) s) ! j"
      using row Cons.IH [of s1] j o xb ab by (cases j) simp_all
    show "fst (uniform_row G (ab # bs) s) ! j \<le> snd ((ab # bs) ! j)"
      using row Cons.IH [of s1] j o xb ab by (cases j) simp_all
  qed
qed

lemma uniform_rows_rows:
  assumes "row \<in> set (fst (uniform_rows G bs n s))"
  shows "\<exists>t. row = fst (uniform_row G bs t)"
  using assms
proof (induction n arbitrary: s)
  case 0
  then show ?case by simp
next
  case (Suc n)
  obtain r s1 where r: "uniform_row G bs s = (r, s1)" by (cases "uniform_row G bs s")
  from Suc.prems r have "row = r \<or> row \<in> set (fst (uniform_rows G bs n s1))"
    by (simp add: split_beta)
  then show ?case
  proof
    assume "row = r"
    with r have "row = fst (uniform_row G bs s)" by simp
    then show ?thesis by blast
  next
    assume "row \<in> set (fst (uniform_rows G bs n s1))"
    from Suc.IH [OF this] show ?thesis .
  qed
qed

lemma length_uniform_rows: "length (fst (uniform_rows G bs n s)) = n"
  by (induction n arbitrary: s) (simp_all add: split_beta)

lemma initialize_population_Inr:
  assumes unit: "\<forall>s. 0 \<le> fst (py_random G s) \<and> fst (py_random G s) \<le> 1"
    and ini: "initialize_population G self d lo up s = Inr (pop, s1)"
    and ord: "bounds_ordered lo up (nat d)"
  shows "length pop = nat (num_fish self)"
    and "\<forall>p \<in> set pop. length p = nat d \<and> in_bounds lo up p"
proof -
  let ?bs = "take (nat d) (zip lo up)"
  from ini have pop: "pop = fst (uniform_rows G ?bs (nat (num_fish self)) s)"
    and ok: "0 < num_fish self \<longrightarrow> nat d \<le> length lo \<and> nat d \<le> length up"
    by (auto simp: initialize_population_def split: if_splits)
  show "length pop = nat (num_fish self)"
    using pop by (simp add: length_uniform_rows)
  show "\<forall>p \<in> set pop. length p = nat d \<and> in_bounds lo up p"
  proof
    fix p assume p: "p \<in> set pop"
    then have "pop \<noteq> []" by auto
    with pop have "0 < num_fish self"
      by (cases "0 < num_fish self") simp_all
    with ok have len: "nat d \<le> length lo" "nat d \<le> length up" by simp_all
    then have lbs: "length ?bs = nat d" by simp
    have nth: "\<And>j. j < nat d \<Longrightarrow> ?bs ! j = (lo ! j, up ! j)"
      using len by simp
    from p pop have "p \<in> set (fst (uniform_rows G ?bs (nat (num_fish self)) s))" by simp
    from uniform_rows_rows [OF this] obtain t where t: "p = fst (uniform_row G ?bs t)" ..
    from uniform_row_bounds [OF unit, of ?bs t] t lbs nth ord len
    show "length p = nat d \<and> in_bounds lo up p"
      by (auto simp: in_bounds_iff bounds_ordered_iff)
  qed
qed


lemma generation_inv:
  assumes g: "generation G f lo up (pop, self, s) = Inr (pop', self', s')"
    and pop: "\<forall>p \<in> set pop. length p = d \<and> in_bounds lo up p"
    and ord: "bounds_ordered lo up d"
  shows "length pop' = nat (num_fish self)"
    and "\<forall>p \<in> set pop'. length p = d \<and> in_bounds lo up p"
    and "same_params self' self"
proof -
  let ?fish = "map (\<lambda>i. pop ! i) [0..<nat (num_fish self)]"
  from g have n: "nat (num_fish self) \<le> length pop"
    and l: "fish_loop G f lo up pop ?fish self s = Inr (pop', self', s')"
    by (auto simp: generation_def split: if_splits)
  from n have "set ?fish \<subseteq> set pop" by auto
  with pop have fish: "\<forall>c \<in> set ?fish. length c = d \<and> in_bounds lo up c" by blast
  from pop have shape: "\<forall>q \<in> set pop. length q = d" by simp
  from fish_loop_bounds [OF l shape fish ord]
  show "length pop' = nat (num_fish self)"
    and "\<forall>p \<in> set pop'. length p = d \<and> in_bounds lo up p" by simp_all
  from fish_loop_params [OF l] show "same_params self' self" .
qed

lemma generations_inv:
  assumes "generations G f lo up k (pop, self, s) = Inr (pop', self', s')"
    and "\<forall>p \<in> set pop. length p = d \<and> in_bounds lo up p"
    and "bounds_ordered lo up d"
  shows "(\<forall>p \<in> set pop'. length p = d \<and> in_bounds lo up p) \<and> same_params self' self"
  using assms(1,2)
proof (induction k arbitrary: pop self s)
  case 0
  then show ?case by (simp add: same_params_def)
next
  case (Suc k)
  from Suc.prems(1) obtain pop1 self1 s1 where
      g: "generation G f lo up (pop, self, s) = Inr (pop1, self1, s1)"
    and r: "generations G f lo up k (pop1, self1, s1) = Inr (pop', self', s')"
    by (auto simp: bindE_eq_Inr)
  from generation_inv [OF g Suc.prems(2) assms(3)]
  have p1: "\<forall>p \<in> set pop1. length p = d \<and> in_bounds lo up p"
    and sp: "same_params self1 self" by simp_all
  from Suc.IH [OF r p1] sp show ?case
    using same_params_trans by blast
qed

lemma optimize_init_inv:
  assumes unit: "\<forall>s. 0 \<le> fst (py_random G s) \<and> fst (py_random G s) \<le> 1"
    and ini: "optimize_init G self f d lo up s = Inr (pop, self0, s0)"
    and ord: "bounds_ordered lo up (nat d)"
  shows "\<forall>p \<in> set pop. length p = nat d \<and> in_bounds lo up p"
proof -
  from ini obtain s1 where "initialize_population G self d lo up s = Inr (pop, s1)"
    by (auto simp: optimize_init_def bindE_eq_Inr)
  from initialize_population_Inr(2) [OF unit this ord] show ?thesis .
qed

lemma fitness_values_of_Inr:
  assumes "fitness_values_of f pop = Inr vs"
  shows "length vs = length pop \<and> (\<forall>i<length pop. f (pop ! i) = Inr (vs ! i))"
  using assms
proof (induction pop arbitrary: vs)
  case Nil
  then show ?case by simp
next
  case (Cons fish rest)
  from Cons.prems obtain v ws where v: "f fish = Inr v"
    and ws: "fitness_values_of f rest = Inr ws" and vs: "vs = v # ws"
    by (auto simp: bindE_eq_Inr)
  from Cons.IH [OF ws] have ih: "length ws = length rest"
    "\<forall>i<length rest. f (rest ! i) = Inr (ws ! i)" by simp_all
  show ?case
  proof (intro conjI allI impI)
    show "length vs = length (fish # rest)" using vs ih(1) by simp
  next
    fix i assume "i < length (fish # rest)"
    then show "f ((fish # rest) ! i) = Inr (vs ! i)"
      using v vs ih(2) by (cases i) simp_all
  qed
qed

lemma argmax_scan_range:
  "argmax_scan xs i b m = b \<or> (i \<le> argmax_scan xs i b m \<and> argmax_scan xs i b m < i + length xs)"
proof (induction xs arbitrary: i b m)
  case Nil
  show ?case by simp
next
  case (Cons x xs)
  from Cons.IH [of "Suc i" i x] Cons.IH [of "Suc i" b m]
  show ?case by auto
qed

lemma np_argmax_Inr:
  assumes "np_argmax vs = Inr i"
  shows "i < length vs"
proof (cases vs)
  case Nil
  with assms show ?thesis by (simp add: np_argmax_def)
next
  case (Cons x rest)
  with assms have "i = argmax_scan rest 1 0 x" by (simp add: np_argmax_def)
  with argmax_scan_range [of rest 1 0 x] Cons show ?thesis by auto
qed

lemma best_ok_update_best:
  assumes "best_ok f self" and "f p = Inr v"
  shows "best_ok f (update_best self p v)"
  using assms by (simp add: best_ok_def update_best_def)

lemma fish_loop_best_ok:
  assumes "fish_loop G f lo up pop rest self s = Inr (news, self', s')"
    and "best_ok f self"
  shows "best_ok f self'"
  using assms
proof (induction rest arbitrary: self s news)
  case Nil
  then show ?case by simp
next
  case (Cons cur rest)
  from Cons.prems(1) obtain p v s2 tl where v: "f p = Inr v"
    and r: "fish_loop G f lo up pop rest (update_best self p v) s2 = Inr (tl, self', s')"
    by (auto simp: bindE_eq_Inr)
  from best_ok_update_best [OF Cons.prems(2) v] have "best_ok f (update_best self p v)" .
  from Cons.IH [OF r this] show ?case .
qed

lemma generations_best_ok:
  assumes "generations G f lo up k (pop, self, s) = Inr (pop', self', s')"
    and "best_ok f self"
  shows "best_ok f self'"
  using assms
proof (induction k arbitrary: pop self s)
  case 0
  then show ?case by simp
next
  case (Suc k)
  from Suc.prems(1) obtain pop1 self1 s1 where
      g: "generation G f lo up (pop, self, s) = Inr (pop1, self1, s1)"
    and r: "generations G f lo up k (pop1, self1, s1) = Inr (pop', self', s')"
    by (auto simp: bindE_eq_Inr)
  from g have "fish_loop G f lo up pop (map (\<lambda>i. pop ! i) [0..<nat (num_fish self)]) self s
                 = Inr (pop1, self1, s1)"
    by (auto simp: generation_def split: if_splits)
  from fish_loop_best_ok [OF this Suc.prems(2)] have "best_ok f self1" .
  from Suc.IH [OF r this] show ?case .
qed

lemma optimize_init_best_ok:
  assumes "optimize_init G self f d lo up s = Inr (pop, self0, s0)"
  shows "best_ok f self0"
proof -
  from assms obtain vs i where vs: "fitness_values_of f pop = Inr vs"
    and i: "np_argmax vs = Inr i"
    and self0: "self0 = self\<lparr>best_solution := Some (pop ! i), best_fitness := vs ! i\<rparr>"
    by (auto simp: optimize_init_def bindE_eq_Inr)
  from np_argmax_Inr [OF i] fitness_values_of_Inr [OF vs]
  have "f (pop ! i) = Inr (vs ! i)" by simp
  with self0 show ?thesis by (simp add: best_ok_def)
qed

lemma optimize_best_ok:
  assumes "optimize G self f d lo up s = Inr ((bs, bf), self', s')"
  shows "\<exists>b. bs = Some b \<and> f b = Inr bf"
proof -
  from assms obtain pop0 self0 s0 pop where
      ini: "optimize_init G self f d lo up s = Inr (pop0, self0, s0)"
    and gen: "generations G f lo up (nat (max_iterations self)) (pop0, self0, s0)
                = Inr (pop, self', s')"
    and res: "bs = best_solution self'" "bf = best_fitness self'"
    by (auto simp: optimize_def bindE_eq_Inr)
  from generations_best_ok [OF gen optimize_init_best_ok [OF ini]] res
  show ?thesis by (auto simp: best_ok_def split: option.splits)
qed

lemma fitness_function_feasible:
  assumes "fitness_function self c vs qs ws ep = Inr v" and "fl_gt v NInf"
  shows "sum_list c \<le> cycle_time_constraint self"
proof (rule ccontr)
  assume "\<not> sum_list c \<le> cycle_time_constraint self"
  then have "fitness_function self c vs qs ws ep = Inr NInf"
    by (simp add: fitness_function_def)
  with assms show False by simp
qed

lemma linalg_norm_single: "linalg_norm [x] = \<bar>x\<bar>"
  by (simp add: linalg_norm_def)

lemmas run_simps = counter_gens_def small_swarm_def small_optimizer_def new_swarm_def
  new_optimizer_def optimize_signal_timings_def optimize_def optimize_init_def
  initialize_population_def uniform_def generation_def choice_def prey_behavior_def
  swarm_behavior_def follow_behavior_def prey_sample_def clamp_def clamp_nan_def
  move_towards_def neighbors_of_def center_of_def np_argmax_def update_best_def
  fitness_function_def products_def quotients_def fl_div_def np_sum_def
  vadd_def vsub_def smul_def sdiv_def linalg_norm_single numeral_2_eq_2

lemma counter_gens_unit:
  "\<forall>s. 0 \<le> fst (py_random counter_gens s) \<and> fst (py_random counter_gens s) \<le> 1"
proof
  fix s :: int
  have "0 \<le> s mod 4" "s mod 4 < 4" by simp_all
  then have "0 \<le> real_of_int (s mod 4)" "real_of_int (s mod 4) \<le> 4" by linarith+
  then show "0 \<le> fst (py_random counter_gens s) \<and> fst (py_random counter_gens s) \<le> 1"
    by (simp add: counter_gens_def)
qed

lemma small_run:
  "optimize_signal_timings counter_gens small_optimizer [1] [0] [5] None 1 =
     Inr (\<lparr>green_times = [70], cycle_time = 70, phase_proportions = [Fin 1],
            fitness = Fin (154 / 5)\<rparr>,
          small_optimizer\<lparr>afsa := small_swarm\<lparr>best_solution := Some [70],
            best_fitness := Fin (154 / 5)\<rparr>\<rparr>, 8)"
  by (simp add: run_simps)

lemma small_init:
  "optimize_init counter_gens small_swarm
     (\<lambda>c. fitness_function small_optimizer c [1] [0] [5] None) 1 [10] [120] 1 =
   Inr ([[75 / 2], [65]],
        small_swarm\<lparr>best_solution := Some [65], best_fitness := Fin (143 / 5)\<rparr>, 3)"
  by (simp add: run_simps)

lemma small_generation:
  "generation counter_gens (\<lambda>c. fitness_function small_optimizer c [1] [0] [5] None)
     [10] [120]
     ([[75 / 2], [65]],
      small_swarm\<lparr>best_solution := Some [65], best_fitness := Fin (143 / 5)\<rparr>, 3) =
   Inr ([[75 / 2], [70]],
        small_swarm\<lparr>best_solution := Some [70], best_fitness := Fin (154 / 5)\<rparr>, 8)"
  by (simp add: run_simps)

lemma initialize_population_stale:
  "initialize_population G (self\<lparr>best_solution := a, best_fitness := b\<rparr>) d lo up s
     = initialize_population G self d lo up s"
  by (auto simp: initialize_population_def)

lemma optimize_init_stale:
  "optimize_init G (self\<lparr>best_solution := a, best_fitness := b\<rparr>) f d lo up s
     = optimize_init G self f d lo up s"
  by (simp add: optimize_init_def initialize_population_stale)

lemma fl_le_refl: "v \<noteq> NaN \<Longrightarrow> fl_le v v"
  by (cases v) simp_all

lemma fl_le_trans: "fl_le a b \<Longrightarrow> fl_le b c \<Longrightarrow> fl_le a c"
  by (cases a; cases b; cases c) simp_all

lemma fl_gt_iff_not_le: "a \<noteq> NaN \<Longrightarrow> b \<noteq> NaN \<Longrightarrow> fl_gt a b \<longleftrightarrow> \<not> fl_le a b"
  by (cases a; cases b) auto

lemma fl_le_total: "a \<noteq> NaN \<Longrightarrow> b \<noteq> NaN \<Longrightarrow> fl_le a b \<or> fl_le b a"
  by (cases a; cases b) auto

lemma fl_gt_irrefl: "\<not> fl_gt v v"
  by (cases v) simp_all

lemma fl_gt_trans: "fl_gt a b \<Longrightarrow> fl_gt b c \<Longrightarrow> fl_gt a c"
  by (cases a; cases b; cases c) simp_all

lemma fl_gt_asym: "fl_gt a b \<Longrightarrow> \<not> fl_gt b a"
  by (cases a; cases b) simp_all

lemma is_maximum_iff:
  "is_maximum m xs \<longleftrightarrow> m \<in> set xs \<and> (\<forall>v \<in> set xs. fl_le v m)"
  by (simp add: is_maximum_def list_all_iff)

lemma update_best_fitness:
  "best_fitness (update_best self p v)
     = (if fl_gt v (best_fitness self) then v else best_fitness self)"
  by (simp add: update_best_def)

lemma update_best_maximum:
  assumes "is_maximum (best_fitness self) (a # xs)" and "v \<noteq> NaN" and "NaN \<notin> set (a # xs)"
  shows "is_maximum (best_fitness (update_best self p v)) (a # xs @ [v])"
proof -
  let ?b = "best_fitness self"
  from assms(1) have b: "?b \<in> set (a # xs)" and le: "\<forall>w \<in> set (a # xs). fl_le w ?b"
    by (simp_all add: is_maximum_iff)
  from b assms(3) have bn: "?b \<noteq> NaN" by auto
  show ?thesis
  proof (cases "fl_gt v ?b")
    case True
    with bn assms(2) have "fl_le ?b v"
      using fl_gt_iff_not_le [of v ?b] fl_le_total [of v ?b] by blast
    with le have "\<forall>w \<in> set (a # xs). fl_le w v" using fl_le_trans by blast
    with True fl_le_refl [OF assms(2)] show ?thesis
      by (auto simp: is_maximum_iff update_best_fitness)
  next
    case False
    with bn assms(2) have "fl_le v ?b" using fl_gt_iff_not_le [of v ?b] by blast
    with False b le show ?thesis
      by (auto simp: is_maximum_iff update_best_fitness)
  qed
qed

lemma fish_loop_maximum:
  assumes "fish_loop G f lo up pop rest self s = Inr (news, self', s')"
  shows "\<exists>vs. fitness_values_of f news = Inr vs
          \<and> (\<forall>a xs. is_maximum (best_fitness self) (a # xs) \<longrightarrow> NaN \<notin> set (a # xs @ vs)
                \<longrightarrow> is_maximum (best_fitness self') (a # xs @ vs))"
  using assms
proof (induction rest arbitrary: self s news)
  case Nil
  then show ?case by simp
next
  case (Cons cur rest)
  from Cons.prems obtain p v s2 tl where v: "f p = Inr v"
    and r: "fish_loop G f lo up pop rest (update_best self p v) s2 = Inr (tl, self', s')"
    and n: "news = p # tl"
    by (auto simp: bindE_eq_Inr)
  from Cons.IH [OF r] obtain ws where ws: "fitness_values_of f tl = Inr ws"
    and ih: "\<forall>a xs. is_maximum (best_fitness (update_best self p v)) (a # xs)
                \<longrightarrow> NaN \<notin> set (a # xs @ ws) \<longrightarrow> is_maximum (best_fitness self') (a # xs @ ws)"
    by blast
  have vs: "fitness_values_of f news = Inr (v # ws)" using n v ws by simp
  have "\<forall>a xs. is_maximum (best_fitness self) (a # xs) \<longrightarrow> NaN \<notin> set (a # xs @ v # ws)
          \<longrightarrow> is_maximum (best_fitness self') (a # xs @ v # ws)"
  proof (intro allI impI)
    fix a xs
    assume m: "is_maximum (best_fitness self) (a # xs)" and nn: "NaN \<notin> set (a # xs @ v # ws)"
    from nn have "v \<noteq> NaN" "NaN \<notin> set (a # xs)" by auto
    from update_best_maximum [OF m this]
    have u: "is_maximum (best_fitness (update_best self p v)) (a # (xs @ [v]))" by simp
    from nn have "NaN \<notin> set (a # (xs @ [v]) @ ws)" by auto
    with ih u have "is_maximum (best_fitness self') (a # (xs @ [v]) @ ws)" by blast
    then show "is_maximum (best_fitness self') (a # xs @ v # ws)" by simp
  qed
  with vs show ?case by blast
qed

lemma fish_loop_monotone:
  assumes "fish_loop G f lo up pop rest self s = Inr (news, self', s')"
  shows "best_fitness self' = best_fitness self \<or> fl_gt (best_fitness self') (best_fitness self)"
  using assms
proof (induction rest arbitrary: self s news)
  case Nil
  then show ?case by simp
next
  case (Cons cur rest)
  from Cons.prems obtain p v s2 tl where
      r: "fish_loop G f lo up pop rest (update_best self p v) s2 = Inr (tl, self', s')"
    by (auto simp: bindE_eq_Inr)
  from Cons.IH [OF r]
  have ih: "best_fitness self' = best_fitness (update_best self p v)
            \<or> fl_gt (best_fitness self') (best_fitness (update_best self p v))" .
  show ?case
  proof (cases "fl_gt v (best_fitness self)")
    case True
    then have "best_fitness (update_best self p v) = v" by (simp add: update_best_fitness)
    with ih True show ?thesis using fl_gt_trans by auto
  next
    case False
    then have "best_fitness (update_best self p v) = best_fitness self"
      by (simp add: update_best_fitness)
    with ih show ?thesis by simp
  qed
qed

lemma argmax_scan_maximum:
  assumes "drop i ys = xs" and "b < i" and "ys ! b = m"
    and "\<forall>v \<in> set (take i ys). fl_le v m" and "NaN \<notin> set ys" and "i \<le> length ys"
  shows "argmax_scan xs i b m < length ys
         \<and> (\<forall>v \<in> set ys. fl_le v (ys ! argmax_scan xs i b m))"
  using assms
proof (induction xs arbitrary: i b m)
  case Nil
  then have "length ys = i" by simp
  with Nil show ?case by simp
next
  case (Cons x xs)
  have i: "i < length ys"
  proof (rule ccontr)
    assume "\<not> i < length ys"
    then have "drop i ys = []" by simp
    with Cons.prems(1) show False by simp
  qed
  from Cons_nth_drop_Suc [OF i] Cons.prems(1)
  have x: "ys ! i = x" and d: "drop (Suc i) ys = xs" by simp_all
  from i have t: "take (Suc i) ys = take i ys @ [ys ! i]"
    by (simp add: take_Suc_conv_app_nth)
  from Cons.prems(2) i have "b < length ys" by simp
  then have "ys ! b \<in> set ys" by simp
  with Cons.prems(3,5) have mn: "m \<noteq> NaN" by auto
  from i have "ys ! i \<in> set ys" by simp
  with x Cons.prems(5) have xn: "x \<noteq> NaN" by auto
  have bi: "b < Suc i" using Cons.prems(2) by simp
  have si: "Suc i \<le> length ys" using i by simp
  show ?case
  proof (cases "fl_le x m")
    case True
    with Cons.prems(4) t x have "\<forall>v \<in> set (take (Suc i) ys). fl_le v m" by simp
    from Cons.IH [OF d bi Cons.prems(3) this Cons.prems(5) si] True mn
    show ?thesis by simp
  next
    case False
    with mn xn have "fl_le m x" using fl_le_total by blast
    with Cons.prems(4) have "\<forall>v \<in> set (take i ys). fl_le v x" using fl_le_trans by blast
    with t x fl_le_refl [OF xn] have a: "\<forall>v \<in> set (take (Suc i) ys). fl_le v x" by simp
    have "i < Suc i" by simp
    from Cons.IH [OF d this x a Cons.prems(5) si] False mn
    show ?thesis by simp
  qed
qed

lemma np_argmax_maximum:
  assumes "np_argmax vs = Inr i" and "NaN \<notin> set vs"
  shows "is_maximum (vs ! i) vs"
proof (cases vs)
  case Nil
  with assms show ?thesis by (simp add: np_argmax_def)
next
  case (Cons x rest)
  with assms(1) have i: "i = argmax_scan rest 1 0 x" by (simp add: np_argmax_def)
  from Cons assms(2) have xn: "x \<noteq> NaN" by auto
  have d: "drop 1 vs = rest" using Cons by simp
  have z: "(0::nat) < 1" by simp
  have h: "vs ! 0 = x" using Cons by simp
  have t: "\<forall>v \<in> set (take 1 vs). fl_le v x" using Cons fl_le_refl [OF xn] by simp
  have l: "1 \<le> length vs" using Cons by simp
  from argmax_scan_maximum [OF d z h t assms(2) l] i
  show ?thesis by (simp add: is_maximum_iff)
qed

lemma prey_sample_total:
  assumes "length rd = length cur" and "length cur \<le> length lo" and "length cur \<le> length up"
  shows "prey_sample self cur lo up rd = Inr (prey_position self cur lo up rd)
         \<and> length (prey_position self cur lo up rd) = length cur"
proof -
  have "\<exists>p. prey_sample self cur lo up rd = Inr p"
    using assms
    by (simp add: prey_sample_def Let_def clamp_def clamp_nan_def length_vadd length_smul
        length_sdiv)
  then obtain p where p: "prey_sample self cur lo up rd = Inr p" ..
  then have "prey_position self cur lo up rd = p" by (simp add: prey_position_def)
  with p prey_sample_Inr(1) [OF p assms(1)] show ?thesis by simp
qed


lemma clamp_clamped:
  "length v \<le> length lo \<Longrightarrow> length v \<le> length up \<Longrightarrow> clamp lo up v = Inr (clamped lo up v)"
  by (simp add: clamp_def clamped_def)






lemma prey_tries_total:
  assumes tot: "\<And>v. length v = length cur \<Longrightarrow> \<exists>y. f v = Inr y"
    and lo: "length cur \<le> length lo" and up: "length cur \<le> length up"
  shows "\<exists>p s'. prey_tries G self f lo up cur cf k s = Inr (p, s') \<and> length p = length cur"
proof (induction k arbitrary: s)
  case 0
  show ?case by simp
next
  case (Suc k)
  obtain rd s1 where d: "np_uniform G (- 1) 1 (length cur) s = (rd, s1)"
    by (cases "np_uniform G (- 1) 1 (length cur) s")
  then have lrd: "length rd = length cur"
    using length_np_uniform [of G "- 1" 1 "length cur" s] by simp
  let ?p = "prey_position self cur lo up rd"
  from prey_sample_total [OF lrd lo up]
  have ps: "prey_sample self cur lo up rd = Inr ?p" and lp: "length ?p = length cur"
    by simp_all
  from tot [OF lp] obtain y where fp: "f ?p = Inr y" ..
  show ?case
  proof (cases "fl_gt y cf")
    case True
    with d ps fp lp show ?thesis by simp
  next
    case False
    with d ps fp have "prey_tries G self f lo up cur cf (Suc k) s
        = prey_tries G self f lo up cur cf k s1" by simp
    with Suc.IH [of s1] show ?thesis by simp
  qed
qed

lemma prey_behavior_total:
  assumes tot: "\<And>v. length v = length cur \<Longrightarrow> \<exists>y. f v = Inr y"
    and lo: "length cur \<le> length lo" and up: "length cur \<le> length up"
  shows "\<exists>p s'. prey_behavior G self cur pop f lo up s = Inr (p, s') \<and> length p = length cur"
proof -
  from tot obtain y where y: "f cur = Inr y" by blast
  from prey_tries_total [of cur f lo up G self y "nat (try_number self)" s, OF assms] y
  show ?thesis by (simp add: prey_behavior_def)
qed

lemma move_towards_total:
  assumes "length target = length cur" and "length cur \<le> length lo" and "length cur \<le> length up"
  shows "\<exists>p. move_towards self cur target lo up = Inr p \<and> length p = length cur"
proof -
  let ?d = "vsub target cur"
  let ?d' = "if linalg_norm ?d > 0 then sdiv ?d (linalg_norm ?d) else ?d"
  have l: "length (vadd cur (smul (step_size self) ?d')) = length cur"
    using assms(1) by (simp add: length_vadd length_smul length_sdiv length_vsub)
  with assms(2,3) have "clamp lo up (vadd cur (smul (step_size self) ?d'))
      = Inr (clamped lo up (vadd cur (smul (step_size self) ?d')))"
    by (intro clamp_clamped) simp_all
  moreover have "length (clamped lo up (vadd cur (smul (step_size self) ?d'))) = length cur"
    using l by (simp add: clamped_def)
  ultimately show ?thesis by (simp add: move_towards_def Let_def)
qed

lemma swarm_behavior_total:
  assumes tot: "\<And>v. length v = length cur \<Longrightarrow> \<exists>y. f v = Inr y"
    and shape: "\<forall>q \<in> set pop. length q = length cur"
    and lo: "length cur \<le> length lo" and up: "length cur \<le> length up"
    and n: "num_fish self \<noteq> 0"
  shows "\<exists>p s'. swarm_behavior G self cur pop f lo up s = Inr (p, s') \<and> length p = length cur"
proof -
  let ?N = "neighbors_of self cur pop"
  let ?c = "center_of (length cur) ?N"
  from tot obtain y where fc: "f cur = Inr y" by blast
  have lc: "length ?c = length cur"
    using shape set_neighbors_of [of self cur pop] by (intro length_center_of) auto
  from tot [OF lc] obtain yc where fcen: "f ?c = Inr yc" ..
  from prey_behavior_total [of cur f lo up G self pop s, OF tot lo up]
  obtain p1 s1 where prey: "prey_behavior G self cur pop f lo up s = Inr (p1, s1)"
    and l1: "length p1 = length cur" by blast
  from move_towards_total [OF lc lo up]
  obtain p2 where mv: "move_towards self cur ?c lo up = Inr p2" and l2: "length p2 = length cur"
    by blast
  show ?thesis
    using fc fcen prey l1 mv l2 n by (simp add: swarm_behavior_def Let_def)
qed

lemma best_neighbor_scan_total:
  assumes tot: "\<And>v. length v = d \<Longrightarrow> \<exists>y. f v = Inr y"
    and shape: "\<forall>q \<in> set pop. length q = d"
  shows "\<exists>r. best_neighbor_scan self f cur pop acc = Inr r"
  using shape
proof (induction pop arbitrary: acc)
  case Nil
  show ?case by simp
next
  case (Cons fish rest)
  obtain bn bf where acc: "acc = (bn, bf)" by (cases acc)
  from Cons.prems have "length fish = d" by simp
  from tot [OF this] obtain y where y: "f fish = Inr y" ..
  from Cons.prems have sh: "\<forall>q \<in> set rest. length q = d" by simp
  from Cons.IH [OF sh, of "(Some fish, y)"] Cons.IH [OF sh, of "(bn, bf)"]
  show ?case using acc y by (simp add: Let_def)
qed

lemma follow_behavior_total:
  assumes tot: "\<And>v. length v = length cur \<Longrightarrow> \<exists>y. f v = Inr y"
    and shape: "\<forall>q \<in> set pop. length q = length cur"
    and lo: "length cur \<le> length lo" and up: "length cur \<le> length up"
    and n: "num_fish self \<noteq> 0"
  shows "\<exists>p s'. follow_behavior G self cur pop f lo up s = Inr (p, s') \<and> length p = length cur"
proof -
  from tot obtain y where fc: "f cur = Inr y" by blast
  from best_neighbor_scan_total [of "length cur" f pop self cur "(None, NInf)", OF tot shape]
  obtain bn bf where scan: "best_neighbor_scan self f cur pop (None, NInf) = Inr (bn, bf)"
    by auto
  from prey_behavior_total [of cur f lo up G self pop s, OF tot lo up]
  obtain p1 s1 where prey: "prey_behavior G self cur pop f lo up s = Inr (p1, s1)"
    and l1: "length p1 = length cur" by blast
  show ?thesis
  proof (cases bn)
    case None
    with fc scan prey l1 show ?thesis by (simp add: follow_behavior_def)
  next
    case (Some b)
    with scan best_neighbor_scan_mem [of self f cur pop "(None, NInf)" b bf]
    have "b \<in> set pop" by simp
    with shape have "length b = length cur" by simp
    from move_towards_total [OF this lo up]
    obtain p2 where mv: "move_towards self cur b lo up = Inr p2" and l2: "length p2 = length cur"
      by blast
    from Some fc scan prey l1 mv l2 n show ?thesis
      by (simp add: follow_behavior_def Let_def)
  qed
qed

lemma choice_total:
  assumes "seq \<noteq> []" and "fst (py_randbelow G (length seq) s) < length seq"
  shows "\<exists>x s'. choice G seq s = Inr (x, s')"
  using assms by (simp add: choice_def split_beta)

lemma num_fish_update_best: "num_fish (update_best self p v) = num_fish self"
  by (simp add: update_best_def)

lemma fish_loop_total:
  assumes tot: "\<And>v. length v = d \<Longrightarrow> \<exists>y. f v = Inr y"
    and rb: "\<And>t. fst (py_randbelow G 3 t) < 3"
    and shape: "\<forall>q \<in> set pop. length q = d"
    and lo: "d \<le> length lo" and up: "d \<le> length up"
    and fish: "\<forall>c \<in> set rest. length c = d"
    and n: "num_fish self \<noteq> 0"
  shows "\<exists>news self' s'. fish_loop G f lo up pop rest self s = Inr (news, self', s')
           \<and> length news = length rest \<and> (\<forall>p \<in> set news. length p = d)"
  using fish n
proof (induction rest arbitrary: self s)
  case Nil
  show ?case by simp
next
  case (Cons cur rest)
  from Cons.prems(1) have lc: "length cur = d" and rest: "\<forall>c \<in> set rest. length c = d"
    by simp_all
  have tot': "\<And>v. length v = length cur \<Longrightarrow> \<exists>y. f v = Inr y"
    using tot lc by simp
  have shape': "\<forall>q \<in> set pop. length q = length cur" using shape lc by simp
  have lo': "length cur \<le> length lo" and up': "length cur \<le> length up"
    using lo up lc by simp_all
  have "fst (py_randbelow G (length [Prey, Swarm, Follow]) s) < length [Prey, Swarm, Follow]"
    using rb [of s] by (simp add: numeral_3_eq_3)
  from choice_total [OF _ this]
  obtain b s1 where ch: "choice G [Prey, Swarm, Follow] s = Inr (b, s1)" by blast
  have "\<exists>p s2. (case b of
            Prey \<Rightarrow> prey_behavior G self cur pop f lo up s1
          | Swarm \<Rightarrow> swarm_behavior G self cur pop f lo up s1
          | Follow \<Rightarrow> follow_behavior G self cur pop f lo up s1) = Inr (p, s2)
        \<and> length p = length cur"
  proof (cases b)
    case Prey
    with prey_behavior_total [of cur f lo up G self pop s1, OF tot' lo' up']
    show ?thesis by simp
  next
    case Swarm
    with swarm_behavior_total [of cur f pop lo up self G s1, OF tot' shape' lo' up' Cons.prems(2)]
    show ?thesis by simp
  next
    case Follow
    with follow_behavior_total [of cur f pop lo up self G s1, OF tot' shape' lo' up' Cons.prems(2)]
    show ?thesis by simp
  qed
  then obtain p s2 where beh: "(case b of
            Prey \<Rightarrow> prey_behavior G self cur pop f lo up s1
          | Swarm \<Rightarrow> swarm_behavior G self cur pop f lo up s1
          | Follow \<Rightarrow> follow_behavior G self cur pop f lo up s1) = Inr (p, s2)"
    and lp: "length p = d" using lc by auto
  from tot [OF lp] obtain v where fp: "f p = Inr v" ..
  have "num_fish (update_best self p v) \<noteq> 0"
    using Cons.prems(2) by (simp add: num_fish_update_best)
  from Cons.IH [OF rest this, of s2]
  obtain tl self' s' where
      r: "fish_loop G f lo up pop rest (update_best self p v) s2 = Inr (tl, self', s')"
    and ltl: "length tl = length rest" and stl: "\<forall>q \<in> set tl. length q = d" by blast
  from ch beh fp r have "fish_loop G f lo up pop (cur # rest) self s = Inr (p # tl, self', s')"
    by simp
  with ltl stl lp show ?case by simp
qed

lemma generation_total:
  assumes tot: "\<And>v. length v = d \<Longrightarrow> \<exists>y. f v = Inr y"
    and rb: "\<And>t. fst (py_randbelow G 3 t) < 3"
    and lo: "d \<le> length lo" and up: "d \<le> length up"
    and shape: "\<forall>q \<in> set pop. length q = d"
    and len: "length pop = nat (num_fish self)"
    and n: "0 < num_fish self"
  shows "\<exists>pop' self' s'. generation G f lo up (pop, self, s) = Inr (pop', self', s')
           \<and> (\<forall>q \<in> set pop'. length q = d) \<and> length pop' = nat (num_fish self')
           \<and> 0 < num_fish self'"
proof -
  let ?fish = "map (\<lambda>i. pop ! i) [0..<nat (num_fish self)]"
  have fish: "\<forall>c \<in> set ?fish. length c = d" using shape len by simp
  from n have n0: "num_fish self \<noteq> 0" by simp
  from fish_loop_total [of d f G pop lo up ?fish self s, OF tot rb shape lo up fish n0]
  obtain news self' s' where
      l: "fish_loop G f lo up pop ?fish self s = Inr (news, self', s')"
    and ln: "length news = nat (num_fish self)" and sn: "\<forall>p \<in> set news. length p = d"
    by auto
  from fish_loop_params [OF l] have "num_fish self' = num_fish self"
    by (simp add: same_params_def)
  moreover from l len have "generation G f lo up (pop, self, s) = Inr (news, self', s')"
    by (simp add: generation_def)
  ultimately show ?thesis using ln sn n by simp
qed

lemma generations_total:
  assumes tot: "\<And>v. length v = d \<Longrightarrow> \<exists>y. f v = Inr y"
    and rb: "\<And>t. fst (py_randbelow G 3 t) < 3"
    and lo: "d \<le> length lo" and up: "d \<le> length up"
  shows "(\<forall>q \<in> set pop. length q = d) \<Longrightarrow> length pop = nat (num_fish self)
           \<Longrightarrow> 0 < num_fish self
           \<Longrightarrow> \<exists>st. generations G f lo up k (pop, self, s) = Inr st"
proof (induction k arbitrary: pop self s)
  case 0
  show ?case by simp
next
  case (Suc k)
  from generation_total [of d f G lo up pop self s, OF tot rb lo up Suc.prems]
  obtain pop1 self1 s1 where g: "generation G f lo up (pop, self, s) = Inr (pop1, self1, s1)"
    and sh: "\<forall>q \<in> set pop1. length q = d" and ln: "length pop1 = nat (num_fish self1)"
    and n: "0 < num_fish self1" by blast
  from Suc.IH [OF sh ln n, of s1] g show ?case by simp
qed

lemma length_uniform_row: "length (fst (uniform_row G bs s)) = length bs"
proof (induction bs arbitrary: s)
  case Nil
  show ?case by simp
next
  case (Cons ab bs)
  obtain a b where ab: "ab = (a, b)" by (cases ab)
  show ?case using Cons.IH [of "snd (uniform G a b s)"] by (simp add: ab split_beta)
qed

lemma initialize_population_total:
  assumes "0 \<le> num_fish self" and "0 \<le> d"
    and "nat d \<le> length lo" and "nat d \<le> length up"
  shows "\<exists>pop s1. initialize_population G self d lo up s = Inr (pop, s1)
           \<and> length pop = nat (num_fish self) \<and> (\<forall>p \<in> set pop. length p = nat d)"
proof -
  let ?bs = "take (nat d) (zip lo up)"
  obtain pop s1 where r: "uniform_rows G ?bs (nat (num_fish self)) s = (pop, s1)"
    by (cases "uniform_rows G ?bs (nat (num_fish self)) s")
  have c1: "\<not> (num_fish self < 0 \<or> d < 0)" using assms(1,2) by simp
  have c2: "\<not> (0 < num_fish self \<and> (length lo < nat d \<or> length up < nat d))"
    using assms(3,4) by simp
  have i: "initialize_population G self d lo up s = Inr (pop, s1)"
    unfolding initialize_population_def using c1 c2 r by simp
  have l: "length pop = nat (num_fish self)"
    using length_uniform_rows [of G ?bs "nat (num_fish self)" s] r by simp
  have lbs: "length ?bs = nat d" using assms(3,4) by simp
  have "\<forall>p \<in> set pop. length p = nat d"
  proof
    fix p assume "p \<in> set pop"
    with r have "p \<in> set (fst (uniform_rows G ?bs (nat (num_fish self)) s))" by simp
    from uniform_rows_rows [OF this] obtain t where "p = fst (uniform_row G ?bs t)" ..
    with lbs length_uniform_row [of G ?bs t] show "length p = nat d" by simp
  qed
  with i l show ?thesis by blast
qed

lemma fitness_values_of_total:
  assumes tot: "\<And>v. length v = d \<Longrightarrow> \<exists>y. f v = Inr y"
  shows "(\<forall>q \<in> set pop. length q = d) \<Longrightarrow> \<exists>vs. fitness_values_of f pop = Inr vs"
proof (induction pop)
  case Nil
  show ?case by simp
next
  case (Cons fish rest)
  from Cons.prems have "length fish = d" by simp
  from tot [OF this] obtain y where "f fish = Inr y" ..
  moreover from Cons have "\<exists>vs. fitness_values_of f rest = Inr vs" by simp
  ultimately show ?case by auto
qed

lemma optimize_init_total:
  assumes tot: "\<And>v. length v = nat d \<Longrightarrow> \<exists>y. f v = Inr y"
    and n: "0 < num_fish self" and d: "0 \<le> d"
    and lo: "nat d \<le> length lo" and up: "nat d \<le> length up"
  shows "\<exists>pop self0 s0. optimize_init G self f d lo up s = Inr (pop, self0, s0)
           \<and> (\<forall>q \<in> set pop. length q = nat d) \<and> length pop = nat (num_fish self0)
           \<and> 0 < num_fish self0 \<and> max_iterations self0 = max_iterations self"
proof -
  from n have "0 \<le> num_fish self" by simp
  from initialize_population_total [OF this d lo up, of G s]
  obtain pop s1 where i: "initialize_population G self d lo up s = Inr (pop, s1)"
    and l: "length pop = nat (num_fish self)" and sh: "\<forall>p \<in> set pop. length p = nat d"
    by blast
  from fitness_values_of_total [of "nat d" f pop, OF tot sh]
  obtain vs where vs: "fitness_values_of f pop = Inr vs" by blast
  from fitness_values_of_Inr [OF vs] l n have "vs \<noteq> []" by auto
  then obtain i0 where a: "np_argmax vs = Inr i0"
    by (cases vs) (simp_all add: np_argmax_def)
  from i vs a have "optimize_init G self f d lo up s
      = Inr (pop, self\<lparr>best_solution := Some (pop ! i0), best_fitness := vs ! i0\<rparr>, s1)"
    by (simp add: optimize_init_def)
  with sh l n show ?thesis by simp
qed

lemma optimize_total:
  assumes tot: "\<And>v. length v = nat d \<Longrightarrow> \<exists>y. f v = Inr y"
    and rb: "\<And>t. fst (py_randbelow G 3 t) < 3"
    and n: "0 < num_fish self" and d: "0 \<le> d"
    and lo: "nat d \<le> length lo" and up: "nat d \<le> length up"
  shows "\<exists>b v self' s'. optimize G self f d lo up s = Inr ((Some b, v), self', s')"
proof -
  from optimize_init_total [of d f self lo up G s, OF tot n d lo up]
  obtain pop self0 s0 where i: "optimize_init G self f d lo up s = Inr (pop, self0, s0)"
    and sh: "\<forall>q \<in> set pop. length q = nat d" and l: "length pop = nat (num_fish self0)"
    and n0: "0 < num_fish self0" by blast
  from generations_total [of "nat d" f G lo up pop self0 "nat (max_iterations self)" s0,
      OF tot rb lo up sh l n0]
  obtain st where
      g0: "generations G f lo up (nat (max_iterations self)) (pop, self0, s0) = Inr st"
    by blast
  obtain pop' self' s' where st: "st = (pop', self', s')" by (cases st)
  from g0 st have
      g: "generations G f lo up (nat (max_iterations self)) (pop, self0, s0)
            = Inr (pop', self', s')"
    by simp
  from i g have o: "optimize G self f d lo up s
      = Inr ((best_solution self', best_fitness self'), self', s')"
    by (simp add: optimize_def)
  from optimize_best_ok [OF o] o show ?thesis by auto
qed

lemma counter_gens_randbelow: "fst (py_randbelow counter_gens 3 t) < 3"
proof -
  have "0 \<le> t mod 3" "t mod 3 < 3" by simp_all
  then have "nat (t mod 3) < 3" by linarith
  then show ?thesis by (simp add: counter_gens_def)
qed

lemma fitness_function_total:
  assumes "length c = nat (num_phases self)"
    and "nat (num_phases self) \<le> length tv" and "nat (num_phases self) \<le> length ql"
    and "nat (num_phases self) \<le> length wt"
    and "case ep of None \<Rightarrow> True | Some e \<Rightarrow> nat (num_phases self) \<le> length e"
  shows "\<exists>y. fitness_function self c tv ql wt ep = Inr y"
proof (cases ep)
  case None
  with assms(1-4) show ?thesis
    by (simp add: fitness_function_def Let_def products_def quotients_def)
next
  case (Some e)
  with assms show ?thesis
    by (simp add: fitness_function_def Let_def products_def quotients_def)
qed

lemma fitness_function_afsa:
  "fitness_function (self\<lparr>afsa := a\<rparr>) c tv ql wt ep = fitness_function self c tv ql wt ep"
  by (simp add: fitness_function_def)

lemma generations_params:
  assumes "generations G f lo up k (pop, self, s) = Inr (pop', self', s')"
  shows "same_params self' self"
  using assms
proof (induction k arbitrary: pop self s)
  case 0
  then show ?case by (simp add: same_params_def)
next
  case (Suc k)
  from Suc.prems obtain pop1 self1 s1 where
      g: "generation G f lo up (pop, self, s) = Inr (pop1, self1, s1)"
    and r: "generations G f lo up k (pop1, self1, s1) = Inr (pop', self', s')"
    by (auto simp: bindE_eq_Inr)
  from g have "fish_loop G f lo up pop (map (\<lambda>i. pop ! i) [0..<nat (num_fish self)]) self s
                 = Inr (pop1, self1, s1)"
    by (auto simp: generation_def split: if_splits)
  from Suc.IH [OF r] fish_loop_params [OF this] show ?case by (rule same_params_trans)
qed

lemma optimize_params:
  assumes "optimize G self f d lo up s = Inr (r, self', s')"
  shows "same_params self' self"
proof -
  from assms obtain pop0 self0 s0 pop where
      ini: "optimize_init G self f d lo up s = Inr (pop0, self0, s0)"
    and gen: "generations G f lo up (nat (max_iterations self)) (pop0, self0, s0)
                = Inr (pop, self', s')"
    by (auto simp: optimize_def bindE_eq_Inr)
  from ini have "same_params self0 self"
    by (auto simp: optimize_init_def bindE_eq_Inr same_params_def)
  with generations_params [OF gen] show ?thesis by (rule same_params_trans)
qed

lemma same_params_eq:
  fixes a b :: swarm
  assumes "same_params a b"
  shows "a = b\<lparr>best_solution := best_solution a, best_fitness := best_fitness a\<rparr>"
  using assms by (cases a, cases b) (simp add: same_params_def)

lemma optimize_rerun:
  assumes "optimize G self f d lo up s = Inr (r, self', s')"
  shows "optimize G self' f d lo up s = Inr (r, self', s')"
proof -
  from same_params_eq [OF optimize_params [OF assms]]
  have "optimize G self' f d lo up s
      = optimize G (self\<lparr>best_solution := best_solution self',
                          best_fitness := best_fitness self'\<rparr>) f d lo up s"
    by simp
  also have "\<dots> = optimize G self f d lo up s"
    by (simp add: optimize_def optimize_init_stale)
  finally show ?thesis using assms by simp
qed

section \<open>Claims\<close>

text \<open>
  C3. In a run whose lower bounds do not exceed the upper bounds, every coordinate of every
  individual of the population lies within its bounds: in the initial population and after
  any number of generations, whichever behaviors were drawn. The draws of
  \<^verbatim>\<open>random.random()\<close> lie in the unit interval.
\<close>

theorem population_within_bounds:
  assumes "\<forall>s. 0 \<le> fst (py_random G s) \<and> fst (py_random G s) \<le> 1"
    and "bounds_ordered lower_bounds upper_bounds (nat dimensions)"
    and "optimize_init G self f dimensions lower_bounds upper_bounds s = Inr (pop0, self0, s0)"
    and "generations G f lower_bounds upper_bounds k (pop0, self0, s0) = Inr (pop, self', s')"
  shows "\<forall>fish \<in> set pop. length fish = nat dimensions \<and> in_bounds lower_bounds upper_bounds fish"
proof -
  from optimize_init_inv [OF assms(1,3,2)]
  have "\<forall>p \<in> set pop0. length p = nat dimensions \<and> in_bounds lower_bounds upper_bounds p" .
  from generations_inv [OF assms(4) this assms(2)] show ?thesis by simp
qed

text \<open>
  C2. Whenever an optimization run returns a result whose fitness is strictly greater than
  minus infinity, the sum of the returned green times does not exceed the cycle time
  constraint.
\<close>

theorem feasible_when_fitness_above_minus_infinity:
  assumes "optimize_signal_timings G self traffic_volumes queue_lengths waiting_times
             emergency_priority s = Inr (result, self', s')"
    and "fl_gt (fitness result) NInf"
  shows "sum_list (green_times result) \<le> cycle_time_constraint self"
proof -
  let ?f = "\<lambda>solution. fitness_function self solution traffic_volumes queue_lengths
                         waiting_times emergency_priority"
  let ?lo = "replicate (nat (num_phases self)) (min_green_time self)"
  let ?up = "replicate (nat (num_phases self)) (max_green_time self)"
  from assms(1) obtain b bf a' where
      o: "optimize G (afsa self) ?f (num_phases self) ?lo ?up s = Inr ((Some b, bf), a', s')"
    and r: "green_times result = b" "fitness result = bf"
    by (auto simp: optimize_signal_timings_def Let_def bindE_eq_Inr split: option.splits)
  from optimize_best_ok [OF o] have fb: "?f b = Inr bf" by simp
  from fitness_function_feasible [OF fb] assms(2) r show ?thesis by simp
qed

theorem population_within_bounds_witness:
  "in_bounds [10] [120] [75 / 2] \<and> in_bounds [10] [120] [70]"
proof -
  have o: "bounds_ordered [10] [120] (nat 1)" by (simp add: bounds_ordered_def)
  have g: "generations counter_gens (\<lambda>c. fitness_function small_optimizer c [1] [0] [5] None)
     [10] [120] 1
     ([[75 / 2], [65]],
      small_swarm\<lparr>best_solution := Some [65], best_fitness := Fin (143 / 5)\<rparr>, 3) =
   Inr ([[75 / 2], [70]],
        small_swarm\<lparr>best_solution := Some [70], best_fitness := Fin (154 / 5)\<rparr>, 8)"
    using small_generation by simp
  from population_within_bounds [OF counter_gens_unit o small_init g] show ?thesis by simp
qed

theorem feasible_when_fitness_above_minus_infinity_witness:
  "sum_list (green_times \<lparr>green_times = [70], cycle_time = 70, phase_proportions = [Fin 1],
      fitness = Fin (154 / 5)\<rparr>) \<le> cycle_time_constraint small_optimizer"
proof -
  have "fl_gt (fitness \<lparr>green_times = [70], cycle_time = 70, phase_proportions = [Fin 1],
      fitness = Fin (154 / 5)\<rparr>) NInf" by simp
  from feasible_when_fitness_above_minus_infinity [OF small_run this] show ?thesis .
qed

text \<open>
  C10. The result of optimize does not depend on the best solution and the best fitness that
  an earlier call left in the object: with the same arguments and the same state of the random
  source, the call on the object with any stale values of both attributes returns what the call
  on the object itself returns, since both are assigned from the best of the new initial
  population before the main loop.
\<close>

theorem optimize_ignores_stale_best:
  "optimize G (self\<lparr>best_solution := a, best_fitness := b\<rparr>) f d lo up s
     = optimize G self f d lo up s"
  by (simp add: optimize_def optimize_init_stale)

text \<open>
  C4. Within one call of optimize, the best fitness after the initialisation is the maximum of
  the fitness values of the initial population, and after each generation it is the maximum of
  its previous value and of the fitness values of the new candidates of the generation (for
  fitness values that are not NaN, which are totally ordered); it never decreases. So it is
  minus infinity as long as every candidate evaluated for it had the fitness minus infinity.
\<close>

theorem best_fitness_is_running_maximum:
  assumes "optimize_init G self f d lo up s = Inr (pop0, self0, s0)"
    and "generations G f lo up k (pop0, self0, s0) = Inr (pop, self1, s1)"
    and "generation G f lo up (pop, self1, s1) = Inr (pop', self2, s2)"
  shows "\<exists>vs0 vs. fitness_values_of f pop0 = Inr vs0 \<and> fitness_values_of f pop' = Inr vs
           \<and> (NaN \<notin> set vs0 \<longrightarrow> is_maximum (best_fitness self0) vs0)
           \<and> (NaN \<notin> set (best_fitness self1 # vs) \<longrightarrow>
                 is_maximum (best_fitness self2) (best_fitness self1 # vs))
           \<and> \<not> fl_gt (best_fitness self1) (best_fitness self2)"
proof -
  from assms(1) obtain vs0 i where vs0: "fitness_values_of f pop0 = Inr vs0"
    and i: "np_argmax vs0 = Inr i"
    and self0: "self0 = self\<lparr>best_solution := Some (pop0 ! i), best_fitness := vs0 ! i\<rparr>"
    by (auto simp: optimize_init_def bindE_eq_Inr)
  from self0 have b0: "best_fitness self0 = vs0 ! i" by simp
  from assms(3) have l: "fish_loop G f lo up pop
      (map (\<lambda>i. pop ! i) [0..<nat (num_fish self1)]) self1 s1 = Inr (pop', self2, s2)"
    by (auto simp: generation_def split: if_splits)
  from fish_loop_maximum [OF l] obtain vs where vs: "fitness_values_of f pop' = Inr vs"
    and m: "\<forall>a xs. is_maximum (best_fitness self1) (a # xs) \<longrightarrow> NaN \<notin> set (a # xs @ vs)
                \<longrightarrow> is_maximum (best_fitness self2) (a # xs @ vs)"
    by blast
  have m1: "NaN \<notin> set (best_fitness self1 # vs) \<longrightarrow>
              is_maximum (best_fitness self2) (best_fitness self1 # vs)"
  proof
    assume nn: "NaN \<notin> set (best_fitness self1 # vs)"
    then have "best_fitness self1 \<noteq> NaN" by auto
    from fl_le_refl [OF this]
    have "is_maximum (best_fitness self1) (best_fitness self1 # [])"
      by (simp add: is_maximum_iff)
    moreover from nn have "NaN \<notin> set (best_fitness self1 # [] @ vs)" by simp
    ultimately have "is_maximum (best_fitness self2) (best_fitness self1 # [] @ vs)"
      using m by blast
    then show "is_maximum (best_fitness self2) (best_fitness self1 # vs)" by simp
  qed
  from fish_loop_monotone [OF l]
  have mono: "\<not> fl_gt (best_fitness self1) (best_fitness self2)"
    using fl_gt_irrefl fl_gt_asym by auto
  from np_argmax_maximum [OF i] b0
  have m0: "NaN \<notin> set vs0 \<longrightarrow> is_maximum (best_fitness self0) vs0" by simp
  from vs0 vs m0 m1 mono show ?thesis by blast
qed

theorem best_fitness_is_running_maximum_witness:
  "is_maximum (Fin (143 / 5)) [Fin (33 / 2), Fin (143 / 5)]
   \<and> is_maximum (Fin (154 / 5)) [Fin (143 / 5), Fin (33 / 2), Fin (154 / 5)]
   \<and> \<not> fl_gt (Fin (143 / 5)) (Fin (154 / 5))"
proof -
  let ?f = "\<lambda>c. fitness_function small_optimizer c [1] [0] [5] None"
  let ?self0 = "small_swarm\<lparr>best_solution := Some [65], best_fitness := Fin (143 / 5)\<rparr>"
  let ?self2 = "small_swarm\<lparr>best_solution := Some [70], best_fitness := Fin (154 / 5)\<rparr>"
  have g0: "generations counter_gens ?f [10] [120] 0 ([[75 / 2], [65]], ?self0, 3)
              = Inr ([[75 / 2], [65]], ?self0, 3)" by simp
  have v0: "fitness_values_of ?f [[75 / 2], [65]] = Inr [Fin (33 / 2), Fin (143 / 5)]"
    by (simp add: run_simps)
  have v1: "fitness_values_of ?f [[75 / 2], [70]] = Inr [Fin (33 / 2), Fin (154 / 5)]"
    by (simp add: run_simps)
  from best_fitness_is_running_maximum [OF small_init g0 small_generation]
  obtain vs0 vs where a: "fitness_values_of ?f [[75 / 2], [65]] = Inr vs0"
    and b: "fitness_values_of ?f [[75 / 2], [70]] = Inr vs"
    and m0: "NaN \<notin> set vs0 \<longrightarrow> is_maximum (best_fitness ?self0) vs0"
    and m1: "NaN \<notin> set (best_fitness ?self0 # vs) \<longrightarrow>
           is_maximum (best_fitness ?self2) (best_fitness ?self0 # vs)"
    and mono: "\<not> fl_gt (best_fitness ?self0) (best_fitness ?self2)"
    by blast
  from a v0 have e0: "vs0 = [Fin (33 / 2), Fin (143 / 5)]" by simp
  from b v1 have e1: "vs = [Fin (33 / 2), Fin (154 / 5)]" by simp
  from m0 have "is_maximum (Fin (143 / 5)) [Fin (33 / 2), Fin (143 / 5)]"
    unfolding e0 by simp
  moreover from m1 have "is_maximum (Fin (154 / 5)) [Fin (143 / 5), Fin (33 / 2), Fin (154 / 5)]"
    unfolding e1 by simp
  moreover from mono have "\<not> fl_gt (Fin (143 / 5)) (Fin (154 / 5))" by simp
  ultimately show ?thesis by blast
qed








text \<open>
  C9. The code validates no traffic context, and no exception for an invalid input exists in
  it. For context vectors with at least \<open>num_phases\<close> entries each, whatever the sign of the
  waiting times (zero included, where the quotient of numpy floats is an infinity or a NaN
  and raises nothing), \<^verbatim>\<open>optimize_signal_timings\<close> runs the search and returns a
  result, whose fitness is the value of the fitness function, computed with these waiting
  times, at the returned green times. The object has at least one fish and a number of phases
  that is not negative; \<^verbatim>\<open>random.choice\<close> draws an index below the length of its
  sequence.
\<close>

theorem optimize_signal_timings_validates_no_input:
  assumes "0 < num_fish (afsa self)" and "0 \<le> num_phases self"
    and "nat (num_phases self) \<le> length traffic_volumes"
    and "nat (num_phases self) \<le> length queue_lengths"
    and "nat (num_phases self) \<le> length waiting_times"
    and "case emergency_priority of None \<Rightarrow> True
         | Some e \<Rightarrow> nat (num_phases self) \<le> length e"
    and "\<And>t. fst (py_randbelow G 3 t) < 3"
  shows "\<exists>result self' s'.
           optimize_signal_timings G self traffic_volumes queue_lengths waiting_times
             emergency_priority s = Inr (result, self', s')
           \<and> fitness_function self (green_times result) traffic_volumes queue_lengths
               waiting_times emergency_priority = Inr (fitness result)"
proof -
  let ?f = "\<lambda>solution. fitness_function self solution traffic_volumes queue_lengths
                         waiting_times emergency_priority"
  let ?lo = "replicate (nat (num_phases self)) (min_green_time self)"
  let ?up = "replicate (nat (num_phases self)) (max_green_time self)"
  have tot: "\<And>v. length v = nat (num_phases self) \<Longrightarrow> \<exists>y. ?f v = Inr y"
    using assms(3,4,5,6) by (rule fitness_function_total [rotated])
  have lo: "nat (num_phases self) \<le> length ?lo" and up: "nat (num_phases self) \<le> length ?up"
    by simp_all
  from optimize_total [of "num_phases self" ?f G "afsa self" ?lo ?up s,
      OF tot assms(7) assms(1) assms(2) lo up]
  obtain best v a' s' where
      o: "optimize G (afsa self) ?f (num_phases self) ?lo ?up s = Inr ((Some best, v), a', s')"
    by blast
  from optimize_best_ok [OF o] have fb: "?f best = Inr v" by simp
  from o have "optimize_signal_timings G self traffic_volumes queue_lengths waiting_times
      emergency_priority s
    = Inr (\<lparr>green_times = best, cycle_time = sum_list best,
             phase_proportions = map (\<lambda>x. fl_div x (sum_list best)) best, fitness = v\<rparr>,
           self\<lparr>afsa := a'\<rparr>, s')"
    by (simp add: optimize_signal_timings_def Let_def)
  with fb show ?thesis by simp
qed

text \<open>A run with the waiting time \<open>-5\<close>.\<close>

theorem optimize_signal_timings_validates_no_input_witness:
  "\<exists>result self' s'.
     optimize_signal_timings counter_gens small_optimizer [1] [0] [- 5] None 1
       = Inr (result, self', s')
     \<and> fitness_function small_optimizer (green_times result) [1] [0] [- 5] None
         = Inr (fitness result)"
proof -
  have n: "0 < num_fish (afsa small_optimizer)"
    by (simp add: small_optimizer_def small_swarm_def new_swarm_def new_optimizer_def)
  have p: "0 \<le> num_phases small_optimizer"
    by (simp add: small_optimizer_def new_optimizer_def)
  have l: "nat (num_phases small_optimizer) \<le> length [1::real]"
      "nat (num_phases small_optimizer) \<le> length [0::real]"
      "nat (num_phases small_optimizer) \<le> length [- 5::real]"
    by (simp_all add: small_optimizer_def new_optimizer_def)
  have e: "case None :: real list option of None \<Rightarrow> True
           | Some e \<Rightarrow> nat (num_phases small_optimizer) \<le> length e" by simp
  from optimize_signal_timings_validates_no_input [of small_optimizer "[1]" "[0]" "[- 5]" None
      counter_gens 1, OF n p l e counter_gens_randbelow]
  show ?thesis .
qed

text \<open>
  With the waiting time 0 the run returns a result whose fitness is plus infinity, the
  quotient of a green time by zero; with the waiting time \<open>-5\<close>, and with context vectors
  longer than the number of phases, it returns green times.
\<close>

theorem invalid_traffic_context_accepted:
  "optimize_signal_timings counter_gens small_optimizer [1] [0] [0] None 1
     = Inr (\<lparr>green_times = [75 / 2], cycle_time = 75 / 2, phase_proportions = [Fin 1],
              fitness = PInf\<rparr>,
            small_optimizer\<lparr>afsa := small_swarm\<lparr>best_solution := Some [75 / 2],
              best_fitness := PInf\<rparr>\<rparr>, 9)
   \<and> returned_green_times
       (optimize_signal_timings counter_gens small_optimizer [1] [0] [- 5] None 1) = Some [70]
   \<and> returned_green_times
       (optimize_signal_timings counter_gens small_optimizer [1, 1] [0] [5, 6, 7] None 1)
       = Some [70]"
proof -
  have "optimize_signal_timings counter_gens small_optimizer [1] [0] [0] None 1
     = Inr (\<lparr>green_times = [75 / 2], cycle_time = 75 / 2, phase_proportions = [Fin 1],
              fitness = PInf\<rparr>,
            small_optimizer\<lparr>afsa := small_swarm\<lparr>best_solution := Some [75 / 2],
              best_fitness := PInf\<rparr>\<rparr>, 9)"
    by (simp add: run_simps Let_def)
  moreover have "returned_green_times
       (optimize_signal_timings counter_gens small_optimizer [1] [0] [- 5] None 1) = Some [70]"
    by (simp add: returned_green_times_def run_simps Let_def)
  moreover have "returned_green_times
       (optimize_signal_timings counter_gens small_optimizer [1, 1] [0] [5, 6, 7] None 1)
       = Some [70]"
    by (simp add: returned_green_times_def run_simps Let_def)
  ultimately show ?thesis by simp
qed

text \<open>
  C5. The optimizer takes no seed: it draws from the generators of the process, which it never
  sets, and its result is determined by its inputs together with the state of these
  generators at the call. A second run with identical inputs that starts from the same state
  of the generators, made on the object as the first run left it, returns the identical
  result, and leaves the object and the generators as the first run left them.
\<close>

theorem runs_from_one_generator_state_agree:
  assumes "optimize_signal_timings G self traffic_volumes queue_lengths waiting_times
             emergency_priority s = Inr (result, self', s')"
  shows "optimize_signal_timings G self' traffic_volumes queue_lengths waiting_times
           emergency_priority s = Inr (result, self', s')"
proof -
  let ?f = "\<lambda>solution. fitness_function self solution traffic_volumes queue_lengths
                         waiting_times emergency_priority"
  let ?lo = "replicate (nat (num_phases self)) (min_green_time self)"
  let ?up = "replicate (nat (num_phases self)) (max_green_time self)"
  from assms obtain b bf a' where
      o: "optimize G (afsa self) ?f (num_phases self) ?lo ?up s = Inr ((Some b, bf), a', s')"
    and self': "self' = self\<lparr>afsa := a'\<rparr>"
    by (auto simp: optimize_signal_timings_def Let_def bindE_eq_Inr split: option.splits)
  from optimize_rerun [OF o]
  have "optimize G a' ?f (num_phases self) ?lo ?up s = Inr ((Some b, bf), a', s')" .
  then have "optimize_signal_timings G (self\<lparr>afsa := a'\<rparr>) traffic_volumes queue_lengths
      waiting_times emergency_priority s
    = Inr (\<lparr>green_times = b, cycle_time = sum_list b,
             phase_proportions = map (\<lambda>x. fl_div x (sum_list b)) b, fitness = bf\<rparr>,
           self\<lparr>afsa := a'\<rparr>, s')"
    by (simp add: optimize_signal_timings_def Let_def fitness_function_afsa)
  moreover from o have "optimize_signal_timings G self traffic_volumes queue_lengths
      waiting_times emergency_priority s
    = Inr (\<lparr>green_times = b, cycle_time = sum_list b,
             phase_proportions = map (\<lambda>x. fl_div x (sum_list b)) b, fitness = bf\<rparr>,
           self\<lparr>afsa := a'\<rparr>, s')"
    by (simp add: optimize_signal_timings_def Let_def)
  ultimately show ?thesis using assms self' by simp
qed

text \<open>The second run on the object that the run from the state 1 left.\<close>

theorem runs_from_one_generator_state_agree_witness:
  "optimize_signal_timings counter_gens
     (small_optimizer\<lparr>afsa := small_swarm\<lparr>best_solution := Some [70],
        best_fitness := Fin (154 / 5)\<rparr>\<rparr>) [1] [0] [5] None 1 =
   Inr (\<lparr>green_times = [70], cycle_time = 70, phase_proportions = [Fin 1],
          fitness = Fin (154 / 5)\<rparr>,
        small_optimizer\<lparr>afsa := small_swarm\<lparr>best_solution := Some [70],
          best_fitness := Fin (154 / 5)\<rparr>\<rparr>, 8)"
  using runs_from_one_generator_state_agree [OF small_run] .

text \<open>
  Two runs with identical inputs, the first when the generators are in the state 0 and the
  second when they are in the state 1, return different green times: no input of the call
  fixes the state of the generators.
\<close>

theorem identical_inputs_different_results:
  "returned_green_times
     (optimize_signal_timings counter_gens small_optimizer [1] [0] [5] None 0) = Some [75 / 2]
   \<and> returned_green_times
       (optimize_signal_timings counter_gens small_optimizer [1] [0] [5] None 1) = Some [70]"
proof -
  have "returned_green_times
     (optimize_signal_timings counter_gens small_optimizer [1] [0] [5] None 0) = Some [75 / 2]"
    by (simp add: returned_green_times_def run_simps Let_def)
  moreover have "returned_green_times
     (optimize_signal_timings counter_gens small_optimizer [1] [0] [5] None 1) = Some [70]"
    by (simp add: returned_green_times_def run_simps Let_def)
  ultimately show ?thesis by simp
qed

end
